theory Spec2Isabelle
  imports Main "HOL-Library.Multiset" "HOL-Library.Sublist"
begin

unbundle bit_operations_syntax

section \<open>Python values and exceptions\<close>

text \<open>
  The scraper is Python. Exceptions are values: a function that can raise returns
  \<open>py_error + 'a\<close>, with \<open>Inl\<close> for the exception. Text is a list of 8-bit characters,
  the UTF-8 bytes of a Python \<open>str\<close>.
\<close>

datatype py_error = IndexError | KeyError string | SelectorSyntaxError

section \<open>ProxyRotation (4.2 Rotation de Proxies)\<close>

text \<open>
  \<^verbatim>\<open>
  class ProxyRotation:
      def __init__(self):
          self.proxies = ["http://proxy1.com:8080", "http://proxy2.com:8080",
                          "http://proxy3.com:8080"]
          self.current_index = 0
      def get_proxy(self):
          proxy = self.proxies[self.current_index]
          self.current_index = (self.current_index + 1) % len(self.proxies)
          return proxy
  \<close>
  The object is a record; \<open>get_proxy\<close> returns the proxy with the updated object.
  \<open>rotation_over\<close> is a fresh object over a given list, as the architecture guide constructs it
  (\<open>ProxyRotation([...])\<close>), and \<open>init_rotation\<close> the fresh object of this
  \<open>__init__\<close>.
  Reading the list out of range raises \<open>IndexError\<close> (before the modulus is taken,
  so an empty list raises \<open>IndexError\<close> and never divides by zero). The index is
  a \<open>nat\<close>: \<open>__init__\<close> sets it to 0 and \<open>get_proxy\<close> only stores a remainder
  modulo a positive length.
\<close>

record proxy_rotation =
  proxies :: "string list"
  current_index :: nat

definition rotation_over :: "string list \<Rightarrow> proxy_rotation" where
  "rotation_over ps = \<lparr>proxies = ps, current_index = 0\<rparr>"

definition init_rotation :: proxy_rotation where
  "init_rotation = rotation_over
     [''http://proxy1.com:8080'', ''http://proxy2.com:8080'', ''http://proxy3.com:8080'']"

definition get_proxy :: "proxy_rotation \<Rightarrow> py_error + (string \<times> proxy_rotation)" where
  "get_proxy s =
     (if current_index s < length (proxies s)
      then Inr (proxies s ! current_index s,
                s\<lparr>current_index := (current_index s + 1) mod length (proxies s)\<rparr>)
      else Inl IndexError)"

text \<open>\<open>get_proxies n\<close> is \<open>n\<close> calls in a row, with the proxies they return in order.\<close>

fun get_proxies :: "nat \<Rightarrow> proxy_rotation \<Rightarrow> py_error + (string list \<times> proxy_rotation)" where
  "get_proxies 0 s = Inr ([], s)"
| "get_proxies (Suc n) s =
     (case get_proxy s of
        Inl e \<Rightarrow> Inl e
      | Inr (p, s') \<Rightarrow>
          (case get_proxies n s' of
             Inl e \<Rightarrow> Inl e
           | Inr (ps, s'') \<Rightarrow> Inr (p # ps, s'')))"

section \<open>ErrorHandler.retry_with_backoff (4.3 Gestion des Erreurs et Retry)\<close>

text \<open>
  \<^verbatim>\<open>
  async def retry_with_backoff(self, func, max_retries=3):
      for attempt in range(max_retries):
          try:
              return await func()
          except Exception as e:
              if attempt == max_retries - 1:
                  raise
              wait_time = 2 ** attempt
              logger.warning(...)
              await asyncio.sleep(wait_time)
  \<close>
  The operation is stateful, so it is modelled by the outcome of each of its
  invocations: \<open>func k\<close> is what the \<open>k\<close>-th invocation (counted from 0) does, and
  \<open>Raises e\<close> is an exception that \<open>except Exception\<close> catches. The helper's
  effects are made explicit in the result: what it returns or raises, how many times it
  invoked the operation, and the seconds it slept, in order. A loop that ends without
  returning (only when \<open>max_retries\<close> is not positive) makes the Python function
  return None, here \<open>Inr None\<close>.
\<close>

datatype ('a, 'e) outcome = Returns 'a | Raises 'e

record ('a, 'e) retry_run =
  result :: "'e + 'a option"
  calls :: nat
  sleeps :: "nat list"

function retry_loop ::
  "(nat \<Rightarrow> ('a, 'e) outcome) \<Rightarrow> nat \<Rightarrow> nat \<Rightarrow> nat list \<Rightarrow> ('a, 'e) retry_run" where
  "retry_loop func max_retries attempt slept =
     (if attempt < max_retries then
        (case func attempt of
           Returns v \<Rightarrow> \<lparr>result = Inr (Some v), calls = Suc attempt, sleeps = slept\<rparr>
         | Raises e \<Rightarrow>
             if attempt = max_retries - 1
             then \<lparr>result = Inl e, calls = Suc attempt, sleeps = slept\<rparr>
             else retry_loop func max_retries (Suc attempt) (slept @ [2 ^ attempt]))
      else \<lparr>result = Inr None, calls = attempt, sleeps = slept\<rparr>)"
  by pat_completeness auto
termination
  by (relation "measure (\<lambda>(func, max_retries, attempt, slept). max_retries - attempt)") auto

declare retry_loop.simps [simp del]

definition retry_with_backoff ::
  "(nat \<Rightarrow> ('a, 'e) outcome) \<Rightarrow> nat \<Rightarrow> ('a, 'e) retry_run" where
  "retry_with_backoff func max_retries = retry_loop func max_retries 0 []"

text \<open>The call with the default argument, \<open>max_retries=3\<close>.\<close>

definition retry_with_backoff_default :: "(nat \<Rightarrow> ('a, 'e) outcome) \<Rightarrow> ('a, 'e) retry_run" where
  "retry_with_backoff_default func = retry_with_backoff func 3"

text \<open>An operation that times out twice and then answers, for the examples.\<close>

definition flaky :: "nat \<Rightarrow> (string, string) outcome" where
  "flaky k = (if k < 2 then Raises ''timeout'' else Returns ''<html>'')"

section \<open>FormatDetector (3.2 Detecteur de Format Automatique)\<close>

text \<open>
  \<^verbatim>\<open>
  PATTERNS = {
      "wordpress":      {"selectors": [".post", ".property", ".listing"],
                         "indicators": ["wp-content", "wp-includes"]},
      "wix":            {"selectors": ["[data-mesh-id]", ".wixui"],
                         "indicators": ["wix.com", "wixstatic.com"]},
      "shopify":        {"selectors": [".product", ".listing"],
                         "indicators": ["shopify.com", "cdn.shopify.com"]},
      "custom":         {"selectors": ["[data-listing]", ".property-card", ".annonce"],
                         "indicators": []},
      "immobilier_pro": {"selectors": [".bien", ".annonce", ".property"],
                         "indicators": ["immobilier", "bien", "annonce"]}
  }
  \<close>
  A Python dict iterates in insertion order, so the table is a list of pairs in the order
  it is written.
\<close>

record patterns =
  selectors :: "string list"
  indicators :: "string list"

definition PATTERNS :: "(string \<times> patterns) list" where
  "PATTERNS =
    [(''wordpress'',
        \<lparr>selectors = [''.post'', ''.property'', ''.listing''],
         indicators = [''wp-content'', ''wp-includes'']\<rparr>),
     (''wix'',
        \<lparr>selectors = [''[data-mesh-id]'', ''.wixui''],
         indicators = [''wix.com'', ''wixstatic.com'']\<rparr>),
     (''shopify'',
        \<lparr>selectors = [''.product'', ''.listing''],
         indicators = [''shopify.com'', ''cdn.shopify.com'']\<rparr>),
     (''custom'',
        \<lparr>selectors = [''[data-listing]'', ''.property-card'', ''.annonce''],
         indicators = []\<rparr>),
     (''immobilier_pro'',
        \<lparr>selectors = [''.bien'', ''.annonce'', ''.property''],
         indicators = [''immobilier'', ''bien'', ''annonce'']\<rparr>)]"

text \<open>
  \<^verbatim>\<open>
  def generate_selectors(self, structure: dict) -> list:
      selectors = []
      keywords = ["annonce", "bien", "property", "listing", "offer"]
      for keyword in keywords:
          selectors.append(f".{keyword}")
          selectors.append(f"[class*='{keyword}']")
          selectors.append(f"#{keyword}")
          selectors.append(f"[id*='{keyword}']")
          selectors.append(f"[data-{keyword}]")
      return selectors
  \<close>
  The argument is not read. \<open>CHR 0x27\<close> is the single quote.
\<close>

definition keyword_list :: "string list" where
  "keyword_list = [''annonce'', ''bien'', ''property'', ''listing'', ''offer'']"

definition keyword_selectors :: "string \<Rightarrow> string list" where
  "keyword_selectors keyword =
     [''.'' @ keyword,
      ''[class*='' @ [CHR 0x27] @ keyword @ [CHR 0x27] @ '']'',
      ''#'' @ keyword,
      ''[id*='' @ [CHR 0x27] @ keyword @ [CHR 0x27] @ '']'',
      ''[data-'' @ keyword @ '']'']"

definition generate_selectors :: "'s \<Rightarrow> string list" where
  "generate_selectors structure = concat (map keyword_selectors keyword_list)"

text \<open>
  \<^verbatim>\<open>
  def detect(self, html: str, url: str) -> dict:
      for platform, patterns in self.PATTERNS.items():
          if self.check_indicators(html, url, patterns["indicators"]):
              return {"platform": platform, "selectors": patterns["selectors"]}
      structure = self.analyze_structure(html)
      selectors = self.generate_selectors(structure)
      return {"platform": "custom", "selectors": selectors, "structure": structure}
  \<close>
  \<open>check_indicators\<close> and \<open>analyze_structure\<close> are called here and written nowhere in
  the repository, so they are parameters: any test of a page against a list of indicators,
  and any analysis of a page into a structure of some type \<open>'s\<close>. The returned dict is a
  record; its key \<open>selectors\<close> is the field \<open>found_selectors\<close>, and the key
  \<open>structure\<close>, present only on the second path, is the optional field
  \<open>page_structure\<close>. The list \<open>keywords\<close> is \<open>keyword_list\<close>.
\<close>

record 's format_info =
  platform :: string
  found_selectors :: "string list"
  page_structure :: "'s option"

fun scan_patterns ::
  "(string list \<Rightarrow> bool) \<Rightarrow> (string \<times> patterns) list \<Rightarrow> (string \<times> patterns) option" where
  "scan_patterns check [] = None"
| "scan_patterns check ((plat, pats) # rest) =
     (if check (indicators pats) then Some (plat, pats) else scan_patterns check rest)"

definition detect ::
  "(string \<Rightarrow> string \<Rightarrow> string list \<Rightarrow> bool) \<Rightarrow> (string \<Rightarrow> 's) \<Rightarrow> string \<Rightarrow> string
     \<Rightarrow> 's format_info" where
  "detect check_indicators analyze_structure html url =
     (case scan_patterns (check_indicators html url) PATTERNS of
        Some (plat, pats) \<Rightarrow>
          \<lparr>platform = plat, found_selectors = selectors pats, page_structure = None\<rparr>
      | None \<Rightarrow>
          \<lparr>platform = ''custom'',
           found_selectors = generate_selectors (analyze_structure html),
           page_structure = Some (analyze_structure html)\<rparr>)"

text \<open>
  For the examples: a test that looks for any indicator as a substring of the page or of
  its URL, and an analysis that counts the characters of the page.
\<close>

definition any_indicator_in :: "string \<Rightarrow> string \<Rightarrow> string list \<Rightarrow> bool" where
  "any_indicator_in html url inds = list_ex (\<lambda>i. sublist i html \<or> sublist i url) inds"

definition wix_html :: string where
  "wix_html = ''<img src=//static.wixstatic.com/a.png>''"

definition plain_html :: string where
  "plain_html = ''<div class=card>''"

definition agency_url :: string where
  "agency_url = ''https://agence-xyz.fr''"

section \<open>DynamicParser (3.3 Parser Dynamique)\<close>

text \<open>
  \<^verbatim>\<open>
  FIELD_PATTERNS = {
      "title": ["h1", "h2", ".title", ".name", "[data-title]"],
      "price": [".price", ".montant", "[data-price]", "span:contains('\<euro>')"],
      "surface": [".surface", ".m2", "[data-surface]"],
      "rooms": [".rooms", ".pieces", "[data-rooms]"],
      "description": [".description", ".details", "p"],
      "images": ["img", "[data-image]", ".gallery"],
      "contact": [".contact", ".agent", "[data-agent]"]
  }
  \<close>
  The euro sign of the last price pattern is its three UTF-8 bytes.
\<close>

definition euro :: string where
  "euro = [CHR 0xE2, CHR 0x82, CHR 0xAC]"

definition FIELD_PATTERNS :: "(string \<times> string list) list" where
  "FIELD_PATTERNS =
    [(''title'', [''h1'', ''h2'', ''.title'', ''.name'', ''[data-title]'']),
     (''price'', [''.price'', ''.montant'', ''[data-price]'',
                  ''span:contains('' @ [CHR 0x27] @ euro @ [CHR 0x27] @ '')'']),
     (''surface'', [''.surface'', ''.m2'', ''[data-surface]'']),
     (''rooms'', [''.rooms'', ''.pieces'', ''[data-rooms]'']),
     (''description'', [''.description'', ''.details'', ''p'']),
     (''images'', [''img'', ''[data-image]'', ''.gallery'']),
     (''contact'', [''.contact'', ''.agent'', ''[data-agent]''])]"

text \<open>
  \<^verbatim>\<open>
  def extract_listing(self, element) -> dict:
      listing = {}
      for field, patterns in self.FIELD_PATTERNS.items():
          for pattern in patterns:
              try:
                  value = element.select_one(pattern)
                  if value:
                      listing[field] = value.get_text(strip=True)
                      break
              except:
                  continue
      return listing if listing else None
  \<close>
  A listing element is what the parser can observe of it: for each selector pattern,
  \<open>select_one\<close> raises, finds nothing (None), or finds a tag, whose
  \<open>get_text(strip=True)\<close> is a text. A tag is truthy even when its text is empty. The
  dict under construction is a list of pairs in insertion order; its keys are the keys of
  \<open>FIELD_PATTERNS\<close>, each stored at most once.
\<close>

datatype selected = SelectRaises | SelectNone | SelectTag string

type_synonym element = "string \<Rightarrow> selected"

fun first_match :: "element \<Rightarrow> string list \<Rightarrow> string option" where
  "first_match element [] = None"
| "first_match element (pattern # rest) =
     (case element pattern of
        SelectTag text \<Rightarrow> Some text
      | SelectNone \<Rightarrow> first_match element rest
      | SelectRaises \<Rightarrow> first_match element rest)"

fun extract_fields :: "element \<Rightarrow> (string \<times> string list) list \<Rightarrow> (string \<times> string) list" where
  "extract_fields element [] = []"
| "extract_fields element ((field, pats) # rest) =
     (case first_match element pats of
        Some text \<Rightarrow> (field, text) # extract_fields element rest
      | None \<Rightarrow> extract_fields element rest)"

definition extract_listing :: "element \<Rightarrow> (string \<times> string) list option" where
  "extract_listing element =
     (let listing = extract_fields element FIELD_PATTERNS
      in if listing = [] then None else Some listing)"

text \<open>
  \<^verbatim>\<open>
  def parse(self, html: str, format_info: dict) -> list:
      listings = []
      soup = BeautifulSoup(html, 'html.parser')
      listing_elements = soup.select(", ".join(format_info["selectors"]))
      for element in listing_elements:
          listing = self.extract_listing(element)
          if listing:
              listings.append(listing)
      return listings
  \<close>
  The parsed page is the function from a selector to the elements it selects, or to the
  exception \<open>soup.select\<close> raises on a selector it cannot read.
\<close>

fun join_selectors :: "string list \<Rightarrow> string" where
  "join_selectors [] = []"
| "join_selectors [s] = s"
| "join_selectors (s # t # rest) = s @ '', '' @ join_selectors (t # rest)"

fun keep_listings :: "element list \<Rightarrow> (string \<times> string) list list" where
  "keep_listings [] = []"
| "keep_listings (element # rest) =
     (case extract_listing element of
        Some listing \<Rightarrow>
          (if listing \<noteq> [] then listing # keep_listings rest else keep_listings rest)
      | None \<Rightarrow> keep_listings rest)"

definition parse ::
  "(string \<Rightarrow> py_error + element list) \<Rightarrow> 's format_info
     \<Rightarrow> py_error + (string \<times> string) list list" where
  "parse soup_select format_info =
     (case soup_select (join_selectors (found_selectors format_info)) of
        Inl e \<Rightarrow> Inl e
      | Inr listing_elements \<Rightarrow> Inr (keep_listings listing_elements))"

text \<open>
  To state what resolves: \<open>field_patterns field\<close> is \<open>FIELD_PATTERNS[field]\<close> (no
  pattern for a name that is not a key), and a field resolves on an element to the text of
  the first of its patterns, in order, that finds a tag.
\<close>

definition field_patterns :: "string \<Rightarrow> string list" where
  "field_patterns field = (case map_of FIELD_PATTERNS field of Some pats \<Rightarrow> pats | None \<Rightarrow> [])"

definition resolve :: "element \<Rightarrow> string \<Rightarrow> string option" where
  "resolve element field = first_match element (field_patterns field)"

text \<open>
  Elements for the examples: one where only a paragraph is found, and one whose price tag
  reads "450 000" followed by the euro sign.
\<close>

definition paragraph_only :: element where
  "paragraph_only pattern = (if pattern = ''p'' then SelectTag ''Nous contacter'' else SelectNone)"

definition priced :: element where
  "priced pattern = (if pattern = ''.price'' then SelectTag (''450 000 '' @ euro) else SelectNone)"

text \<open>
  An element with neither title nor price, on which three other fields are found.
\<close>

definition sparse :: element where
  "sparse pattern =
     (if pattern = ''.surface'' then SelectTag ''62 m2''
      else if pattern = ''p'' then SelectTag ''Nous contacter''
      else if pattern = ''.agent'' then SelectTag ''Agence XYZ''
      else SelectNone)"

section \<open>Python text: str(), str.lower(), str.strip()\<close>

text \<open>
  A listing dict maps a key to a value; the values that reach the hash are text, integers
  (the column \<open>price\<close> is an Integer) or None. \<open>format_value\<close> is what an f-string
  writes for a value.
\<close>

datatype py_value = PyStr string | PyInt int | PyNone

text \<open>The decimal digits of a non-negative integer, most significant first.\<close>

function digits_of :: "int \<Rightarrow> string" where
  "digits_of n =
     (if n < 10 then [''0123456789'' ! nat n]
      else digits_of (n div 10) @ [''0123456789'' ! nat (n mod 10)])"
  by pat_completeness auto
termination
  by (relation "measure nat") auto

declare digits_of.simps [simp del]

fun format_value :: "py_value \<Rightarrow> string" where
  "format_value (PyStr s) = s"
| "format_value (PyInt i) = (if i < 0 then CHR ''-'' # digits_of (- i) else digits_of i)"
| "format_value PyNone = ''None''"

text \<open>
  \<open>str.lower\<close> and \<open>str.strip\<close> are methods of Python's \<open>str\<close> and work on all
  of Unicode. The functions that call them take them as the parameters \<open>str_lower\<close> and
  \<open>str_strip\<close>, so that what is proved of those functions holds for the methods as
  Python has them. What the two methods do on ASCII text is written out: \<open>lower\<close> moves
  the letters A to Z (65 to 90) to a to z, and \<open>strip\<close> with no argument removes leading
  and trailing whitespace, which in ASCII is 9 to 13, 28 to 31 and the space. The examples
  are ASCII text and are evaluated with these two.
\<close>

definition ascii_lower_char :: "char \<Rightarrow> char" where
  "ascii_lower_char c =
     (if 65 \<le> (of_char c :: int) \<and> (of_char c :: int) \<le> 90 then char_of (of_char c + 32 :: int)
      else c)"

definition ascii_lower :: "string \<Rightarrow> string" where
  "ascii_lower s = map ascii_lower_char s"

definition ascii_space :: "char \<Rightarrow> bool" where
  "ascii_space c =
     ((9 \<le> (of_char c :: int) \<and> (of_char c :: int) \<le> 13)
      \<or> (28 \<le> (of_char c :: int) \<and> (of_char c :: int) \<le> 32))"

definition ascii_strip :: "string \<Rightarrow> string" where
  "ascii_strip s = rev (dropWhile ascii_space (rev (dropWhile ascii_space s)))"

definition is_ascii :: "string \<Rightarrow> bool" where
  "is_ascii s = list_all (\<lambda>c. (of_char c :: int) < 128) s"

section \<open>hashlib.sha256\<close>

text \<open>
  \<open>hashlib.sha256(b).hexdigest()\<close> is SHA-256 of the bytes, written as 64 lower-case
  hexadecimal digits. A 32-bit word is an \<open>int\<close> in \<open>[0, 2^32)\<close> with the wrap-around
  written out. The round constants are the first 32 bits of the fractional parts of the
  cube roots of the first 64 primes, the initial state those of the square roots of the
  first 8 primes.
\<close>

definition round_constants :: "int list" where
  "round_constants =
    [1116352408, 1899447441, 3049323471, 3921009573, 961987163, 1508970993,
     2453635748, 2870763221, 3624381080, 310598401, 607225278, 1426881987,
     1925078388, 2162078206, 2614888103, 3248222580, 3835390401, 4022224774,
     264347078, 604807628, 770255983, 1249150122, 1555081692, 1996064986,
     2554220882, 2821834349, 2952996808, 3210313671, 3336571891, 3584528711,
     113926993, 338241895, 666307205, 773529912, 1294757372, 1396182291,
     1695183700, 1986661051, 2177026350, 2456956037, 2730485921, 2820302411,
     3259730800, 3345764771, 3516065817, 3600352804, 4094571909, 275423344,
     430227734, 506948616, 659060556, 883997877, 958139571, 1322822218,
     1537002063, 1747873779, 1955562222, 2024104815, 2227730452, 2361852424,
     2428436474, 2756734187, 3204031479, 3329325298]"

definition initial_state :: "int list" where
  "initial_state =
    [1779033703, 3144134277, 1013904242, 2773480762,
     1359893119, 2600822924, 528734635, 1541459225]"

definition add32 :: "int \<Rightarrow> int \<Rightarrow> int" where
  "add32 x y = (x + y) mod 4294967296"

definition rotr32 :: "nat \<Rightarrow> int \<Rightarrow> int" where
  "rotr32 n x = x div 2 ^ n + (x mod 2 ^ n) * 2 ^ (32 - n)"

definition not32 :: "int \<Rightarrow> int" where
  "not32 x = 4294967295 - x"

definition sha_choose :: "int \<Rightarrow> int \<Rightarrow> int \<Rightarrow> int" where
  "sha_choose x y z = (x AND y) XOR (not32 x AND z)"

definition sha_majority :: "int \<Rightarrow> int \<Rightarrow> int \<Rightarrow> int" where
  "sha_majority x y z = (x AND y) XOR (x AND z) XOR (y AND z)"

definition big_sigma0 :: "int \<Rightarrow> int" where
  "big_sigma0 x = rotr32 2 x XOR rotr32 13 x XOR rotr32 22 x"

definition big_sigma1 :: "int \<Rightarrow> int" where
  "big_sigma1 x = rotr32 6 x XOR rotr32 11 x XOR rotr32 25 x"

definition small_sigma0 :: "int \<Rightarrow> int" where
  "small_sigma0 x = rotr32 7 x XOR rotr32 18 x XOR x div 2 ^ 3"

definition small_sigma1 :: "int \<Rightarrow> int" where
  "small_sigma1 x = rotr32 17 x XOR rotr32 19 x XOR x div 2 ^ 10"

text \<open>
  Padding: the byte 128, zero bytes up to 56 modulo 64, then the length in bits as eight
  bytes, most significant first.
\<close>

definition length_bytes :: "int \<Rightarrow> int list" where
  "length_bytes n = map (\<lambda>i. (n div 256 ^ (7 - i)) mod 256) [0..<8]"

definition pad_message :: "int list \<Rightarrow> int list" where
  "pad_message m =
     m @ [128] @ replicate ((64 - (length m + 9) mod 64) mod 64) 0
       @ length_bytes (8 * int (length m))"

fun words_of_bytes :: "int list \<Rightarrow> int list" where
  "words_of_bytes (a # b # c # d # rest) =
     (((a * 256 + b) * 256 + c) * 256 + d) # words_of_bytes rest"
| "words_of_bytes rest = []"

fun blocks_of_words :: "int list \<Rightarrow> int list list" where
  "blocks_of_words [] = []"
| "blocks_of_words (w # ws) = take 16 (w # ws) # blocks_of_words (drop 16 (w # ws))"

text \<open>
  One round on the eight working variables, and the 64 rounds of a block. The message
  schedule is a window of the last sixteen words: its head is the word of the current
  round, and the word sixteen rounds ahead is appended.
\<close>

fun sha_round :: "int list \<Rightarrow> int \<Rightarrow> int \<Rightarrow> int list" where
  "sha_round [a, b, c, d, e, f, g, h] k w =
     (let t1 = add32 (add32 (add32 (add32 h (big_sigma1 e)) (sha_choose e f g)) k) w;
          t2 = add32 (big_sigma0 a) (sha_majority a b c)
      in [add32 t1 t2, a, b, c, add32 d t1, e, f, g])"
| "sha_round vars k w = vars"

fun sha_rounds :: "int list \<Rightarrow> int list \<Rightarrow> int list \<Rightarrow> int list" where
  "sha_rounds [] window vars = vars"
| "sha_rounds (k # ks) window vars =
     sha_rounds ks
       (tl window @
          [add32 (add32 (add32 (small_sigma1 (window ! 14)) (window ! 9))
                        (small_sigma0 (window ! 1)))
                 (window ! 0)])
       (sha_round vars k (hd window))"

definition compress :: "int list \<Rightarrow> int list \<Rightarrow> int list" where
  "compress state block = map2 add32 state (sha_rounds round_constants block state)"

definition sha256_words :: "int list \<Rightarrow> int list" where
  "sha256_words m = foldl compress initial_state (blocks_of_words (words_of_bytes (pad_message m)))"

definition hex_digit :: "int \<Rightarrow> char" where
  "hex_digit n = ''0123456789abcdef'' ! nat (n mod 16)"

definition hex_word :: "int \<Rightarrow> string" where
  "hex_word w = map (\<lambda>i. hex_digit (w div 16 ^ (7 - i))) [0..<8]"

definition sha256_hexdigest :: "string \<Rightarrow> string" where
  "sha256_hexdigest s = concat (map hex_word (sha256_words (map of_char s)))"

section \<open>DeduplicationEngine (5.2 Deduplication des Annonces)\<close>

text \<open>
  \<^verbatim>\<open>
  def generate_hash(self, listing: dict) -> str:
      signature = f"{listing['title']}|{listing['price']}|{listing['address']}"
      signature = signature.lower().strip()
      return hashlib.sha256(signature.encode()).hexdigest()
  \<close>
  Reading a key the dict does not have raises \<open>KeyError\<close>; the f-string reads
  the three keys from left to right. \<open>str_lower\<close> and \<open>str_strip\<close> are the two
  methods of \<open>str\<close> the function calls.
\<close>

type_synonym listing = "string \<rightharpoonup> py_value"

definition generate_hash ::
  "(string \<Rightarrow> string) \<Rightarrow> (string \<Rightarrow> string) \<Rightarrow> listing \<Rightarrow> py_error + string" where
  "generate_hash str_lower str_strip listing =
     (case listing ''title'' of
        None \<Rightarrow> Inl (KeyError ''title'')
      | Some title_value \<Rightarrow>
     (case listing ''price'' of
        None \<Rightarrow> Inl (KeyError ''price'')
      | Some price_value \<Rightarrow>
     (case listing ''address'' of
        None \<Rightarrow> Inl (KeyError ''address'')
      | Some address_value \<Rightarrow>
          Inr (sha256_hexdigest (str_strip (str_lower
                (format_value title_value @ ''|'' @ format_value price_value @ ''|''
                   @ format_value address_value)))))))"

text \<open>
  The table \<open>aggregated_listings\<close>, with the columns the deduplication reads or could
  write, is a list of rows.
  \<^verbatim>\<open>
  async def check_duplicate(self, listing: dict) -> bool:
      hash_value = self.generate_hash(listing)
      existing = db.query(AggregatedListing).filter(
          AggregatedListing.hash == hash_value
      ).first()
      return existing is not None
  \<close>
  The function returns its answer with the table as it leaves it.
\<close>

record aggregated_listing =
  listing_id :: nat
  title :: string
  price :: "int option"
  address :: string
  agency_id :: nat
  source_url :: string
  is_active :: bool
  hash :: string
  is_duplicate :: bool
  duplicate_of :: "nat option"

definition check_duplicate ::
  "(string \<Rightarrow> string) \<Rightarrow> (string \<Rightarrow> string) \<Rightarrow> aggregated_listing list \<Rightarrow> listing
     \<Rightarrow> (py_error + bool) \<times> aggregated_listing list" where
  "check_duplicate str_lower str_strip db listing =
     (case generate_hash str_lower str_strip listing of
        Inl e \<Rightarrow> (Inl e, db)
      | Inr hash_value \<Rightarrow>
          (let existing = find (\<lambda>row. hash row = hash_value) db
           in (Inr (existing \<noteq> None), db)))"

text \<open>
  The normalisation the specification names, field by field: lower-cased and trimmed.
\<close>

definition normalized_field ::
  "(string \<Rightarrow> string) \<Rightarrow> (string \<Rightarrow> string) \<Rightarrow> py_value \<Rightarrow> string" where
  "normalized_field str_lower str_strip v = str_strip (str_lower (format_value v))"

text \<open>
  Listings for the examples. \<open>listing_trailing\<close> and \<open>listing_plain\<close> differ in one
  space at the end of the title. \<open>listing_mirror\<close> is \<open>listing_plain\<close> as a second
  agency publishes it, and \<open>stored_db\<close> holds the listing of the first agency.
\<close>

definition listing_trailing :: listing where
  "listing_trailing =
     [''title'' \<mapsto> PyStr ''Appt 3p '', ''price'' \<mapsto> PyInt 450000,
      ''address'' \<mapsto> PyStr ''12 Rue X, 75015'']"

definition listing_plain :: listing where
  "listing_plain =
     [''title'' \<mapsto> PyStr ''Appt 3p'', ''price'' \<mapsto> PyInt 450000,
      ''address'' \<mapsto> PyStr ''12 Rue X, 75015'']"

definition listing_mirror :: listing where
  "listing_mirror = listing_plain(''source_url'' \<mapsto> PyStr ''https://agence-b.fr/bien/9'')"

definition stored_db :: "aggregated_listing list" where
  "stored_db =
     [\<lparr>listing_id = 1, title = ''Appt 3p'', price = Some 450000,
       address = ''12 Rue X, 75015'', agency_id = 1,
       source_url = ''https://agence-a.fr/annonce/1'', is_active = True,
       hash = ''1b2f17c6414fe7a96665d6c92209a3de082cb2715aafff3a3c89a5d0de8c18a8'',
       is_duplicate = False, duplicate_of = None\<rparr>]"

section \<open>Change Detector: deactivation after consecutive absences\<close>

text \<open>
  \<^verbatim>\<open>
  async def detect_changes(self, agency: Agency):
      current_listings = await self.scraper.scrape_agency(agency)
      previous_listings = db.query(AggregatedListing).filter(
          AggregatedListing.agency_id == agency.id,
          AggregatedListing.is_active == True
      ).all()
      new_listings = self.find_new(current_listings, previous_listings)
      removed_listings = self.find_removed(current_listings, previous_listings)
      await self.notify_changes(agency, new_listings, removed_listings)
  \<close>
  \<open>detect_changes\<close> hands the listings it finds removed to \<open>notify_changes\<close>. The
  helpers \<open>find_new\<close>, \<open>find_removed\<close> and \<open>notify_changes\<close>, and the code that
  sets \<open>is_active\<close> to false, are not in the repository's files, so what follows is
  written from the specification (4.6 Change Detector).
\<close>

text \<open>
  Modelled from the spec: the outcome of one scrape cycle of an agency, which the missing
  scraper and orchestrator produce: a successful scrape with the hashes it discovered, or
  a cycle that did not succeed.
\<close>

datatype scrape_cycle = Scraped "string list" | Unsuccessful

text \<open>
  Modelled from the spec: a stored listing as the missing deactivation code sees it: its
  hash, its agency, its active flag, and the number of successful scrape cycles in a row
  from which it has been absent.
\<close>

record tracked_listing =
  tracked_hash :: string
  tracked_agency :: nat
  tracked_active :: bool
  missed_cycles :: nat

text \<open>
  Modelled from the spec: the configured number of consecutive successful cycles
  ("default 3"), which is missing from the repository's files.
\<close>

definition default_threshold :: nat where
  "default_threshold = 3"

text \<open>
  Modelled from the spec: the missing write that follows a successful scrape, for one
  active listing of the agency. A listing the scrape discovered is no longer missing; one
  it did not discover (a removed candidate) is not deactivated at once, it is marked
  inactive when this absence is the \<open>threshold\<close>-th in a row.
\<close>

definition observe :: "nat \<Rightarrow> string list \<Rightarrow> tracked_listing \<Rightarrow> tracked_listing" where
  "observe threshold fresh row =
     (if tracked_hash row \<in> set fresh then row\<lparr>missed_cycles := 0\<rparr>
      else if threshold \<le> Suc (missed_cycles row)
      then row\<lparr>tracked_active := False, missed_cycles := Suc (missed_cycles row)\<rparr>
      else row\<lparr>missed_cycles := Suc (missed_cycles row)\<rparr>)"

text \<open>
  Modelled from the spec: the missing change detection of one cycle over the store. Only
  a successful scrape is compared, and only with the currently-active listings of the
  agency scraped.
\<close>

fun apply_cycle :: "nat \<Rightarrow> nat \<Rightarrow> scrape_cycle \<Rightarrow> tracked_listing list \<Rightarrow> tracked_listing list" where
  "apply_cycle threshold agency Unsuccessful store = store"
| "apply_cycle threshold agency (Scraped fresh) store =
     map (\<lambda>row. if tracked_agency row = agency \<and> tracked_active row
                then observe threshold fresh row else row) store"

text \<open>Modelled from the spec: the missing scheduler's successive cycles of one agency.\<close>

definition run_cycles ::
  "nat \<Rightarrow> nat \<Rightarrow> scrape_cycle list \<Rightarrow> tracked_listing list \<Rightarrow> tracked_listing list" where
  "run_cycles threshold agency cycles store =
     foldl (\<lambda>s cycle. apply_cycle threshold agency cycle s) store cycles"

text \<open>
  The history a listing is judged by: for each successful cycle, in order, whether the
  listing's hash was absent from it. Unsuccessful cycles do not count.
\<close>

fun absences :: "string \<Rightarrow> scrape_cycle list \<Rightarrow> bool list" where
  "absences h [] = []"
| "absences h (Unsuccessful # cycles) = absences h cycles"
| "absences h (Scraped fresh # cycles) = (h \<notin> set fresh) # absences h cycles"

text \<open>
  One listing of the agency through the cycles: the rows of the store are followed
  independently of each other, and this is the course of one of them.
\<close>

fun follow :: "nat \<Rightarrow> scrape_cycle list \<Rightarrow> tracked_listing \<Rightarrow> tracked_listing" where
  "follow k [] row = row"
| "follow k (Unsuccessful # cycles) row = follow k cycles row"
| "follow k (Scraped fresh # cycles) row =
     follow k cycles (if tracked_active row then observe k fresh row else row)"

text \<open>A store and a history for the examples.\<close>

definition tracked_store :: "tracked_listing list" where
  "tracked_store =
     [\<lparr>tracked_hash = ''h1'', tracked_agency = 7, tracked_active = True, missed_cycles = 0\<rparr>,
      \<lparr>tracked_hash = ''h2'', tracked_agency = 7, tracked_active = True, missed_cycles = 0\<rparr>]"

definition flickering_history :: "scrape_cycle list" where
  "flickering_history =
     [Scraped [''h2''], Scraped [''h2''], Scraped [''h1''], Scraped [], Unsuccessful,
      Scraped [], Scraped [''h1'']]"

section \<open>Discovery Engine: one Agency per normalized URL\<close>

text \<open>
  \<^verbatim>\<open>
  class Agency(Base):
      __tablename__ = "agencies"
      name = Column(String(255), unique=True, index=True)
      phone = Column(String(20), nullable=True)
      email = Column(String(255), nullable=True)
      website_url = Column(String(500), unique=True, index=True)
      discovered_from = Column(JSON)  # ["google_maps", "pages_jaunes", ...]
      scraping_status = Column(String(50))  # "pending", "active", "failed", "blocked"
      is_active = Column(Boolean, default=True)
  \<close>
  The table is declared in the repository's files (the columns the discovery reads or
  writes are kept); the code that fills it, the Discovery Engine, is not, so the merge is
  written from the specification (4.1 Discovery Engine).
\<close>

record agency =
  agency_name :: string
  phone :: string
  email :: string
  website_url :: string
  discovered_from :: "string list"
  scraping_status :: string
  agency_is_active :: bool

text \<open>
  Modelled from the spec: an \<open>AgencyCandidate\<close> as a lookup provider of the missing
  Discovery Engine returns it: the URL it saw, the fields it supplies (empty when it
  supplies none) and its provenance, a set of source tags kept as a list.
\<close>

record agency_candidate =
  seen_url :: string
  seen_name :: string
  seen_phone :: string
  seen_email :: string
  seen_from :: "string list"

text \<open>
  Modelled from the spec: "non-empty fields are filled from whichever candidate supplies
  them (first-non-empty-wins)", of the missing merge.
\<close>

definition first_non_empty :: "string \<Rightarrow> string \<Rightarrow> string" where
  "first_non_empty kept offered = (if kept = [] then offered else kept)"

text \<open>
  Modelled from the spec: the missing merge of a candidate into the one already kept for
  its agency: "on collision, provenance sets are unioned" and fields are filled. The URL
  is a field the kept candidate supplies, so the kept URL stays.
\<close>

definition combine :: "agency_candidate \<Rightarrow> agency_candidate \<Rightarrow> agency_candidate" where
  "combine kept c =
     kept\<lparr>seen_name := first_non_empty (seen_name kept) (seen_name c),
          seen_phone := first_non_empty (seen_phone kept) (seen_phone c),
          seen_email := first_non_empty (seen_email kept) (seen_email c),
          seen_from := List.union (seen_from kept) (seen_from c)\<rparr>"

text \<open>
  Modelled from the spec: "Candidates are merged by normalized URL", of the missing
  Discovery Engine: two candidates collide when the normalized forms of their URLs are
  equal. The normalization (scheme, host and path canonicalization, trailing slash and
  www. stripped) is the parameter \<open>canon\<close>: the merge is the same for any of them, and
  nothing is asked of it. The candidates come in provider priority order.
\<close>

fun merge_candidate ::
  "(string \<Rightarrow> string) \<Rightarrow> agency_candidate \<Rightarrow> agency_candidate list \<Rightarrow> agency_candidate list" where
  "merge_candidate canon c [] = [c]"
| "merge_candidate canon c (kept # rest) =
     (if canon (seen_url kept) = canon (seen_url c) then combine kept c # rest
      else kept # merge_candidate canon c rest)"

text \<open>Modelled from the spec: the missing merge of all the candidates of one discovery.\<close>

definition merge_candidates ::
  "(string \<Rightarrow> string) \<Rightarrow> agency_candidate list \<Rightarrow> agency_candidate list" where
  "merge_candidates canon cands =
     foldl (\<lambda>merged c. merge_candidate canon c merged) [] cands"

text \<open>
  Modelled from the spec: the missing upsert into the Agency store. "Existing agencies
  get provenance/contact enrichment", and a candidate for an inactive agency reactivates
  it.
\<close>

definition enrich :: "agency \<Rightarrow> agency_candidate \<Rightarrow> agency" where
  "enrich a c =
     a\<lparr>agency_name := first_non_empty (agency_name a) (seen_name c),
       phone := first_non_empty (phone a) (seen_phone c),
       email := first_non_empty (email a) (seen_email c),
       discovered_from := List.union (discovered_from a) (seen_from c),
       agency_is_active := True\<rparr>"

text \<open>
  Modelled from the spec: "unseen URLs create new Agency rows in pending status", of the
  missing upsert. The column \<open>website_url\<close> is the address the scraper fetches
  (\<open>fetch_page(agency.website_url)\<close>), so the row holds the URL as the candidate has it.
\<close>

definition new_agency :: "agency_candidate \<Rightarrow> agency" where
  "new_agency c =
     \<lparr>agency_name = seen_name c, phone = seen_phone c, email = seen_email c,
      website_url = seen_url c, discovered_from = seen_from c,
      scraping_status = ''pending'', agency_is_active = True\<rparr>"

text \<open>
  Modelled from the spec: the missing upsert of one merged candidate. The identity of an
  Agency is its canonical site URL: the candidate is an existing agency when the
  normalized form of a row's URL is the normalized form of the candidate's URL, and an
  unseen one otherwise.
\<close>

fun upsert_agency :: "(string \<Rightarrow> string) \<Rightarrow> agency_candidate \<Rightarrow> agency list \<Rightarrow> agency list" where
  "upsert_agency canon c [] = [new_agency c]"
| "upsert_agency canon c (a # rest) =
     (if canon (website_url a) = canon (seen_url c) then enrich a c # rest
      else a # upsert_agency canon c rest)"

text \<open>
  Modelled from the spec: the missing \<open>Discover\<close>, from the candidates of the providers
  to the store: merge, then upsert each merged candidate.
\<close>

definition discover ::
  "(string \<Rightarrow> string) \<Rightarrow> agency_candidate list \<Rightarrow> agency list \<Rightarrow> agency list" where
  "discover canon cands store =
     foldl (\<lambda>s c. upsert_agency canon c s) store (merge_candidates canon cands)"

text \<open>
  The provenance recorded under a normalized URL: what the rows of the store with that
  normalized URL were discovered from, and what the candidates under it bring.
\<close>

definition provenance_at :: "(string \<Rightarrow> string) \<Rightarrow> string \<Rightarrow> agency list \<Rightarrow> string set" where
  "provenance_at canon k store =
     (\<Union>a \<in> {a \<in> set store. canon (website_url a) = k}. set (discovered_from a))"

definition seen_at :: "(string \<Rightarrow> string) \<Rightarrow> string \<Rightarrow> agency_candidate list \<Rightarrow> string set" where
  "seen_at canon k ms = (\<Union>m \<in> {m \<in> set ms. canon (seen_url m) = k}. set (seen_from m))"

text \<open>
  Modelled from the spec: one normalization of the kind the specification names, for the
  examples: lower case, without the scheme, a leading www. and a trailing slash.
\<close>

definition without_prefix :: "string \<Rightarrow> string \<Rightarrow> string" where
  "without_prefix p s = (if prefix p s then drop (length p) s else s)"

definition canonical_url :: "string \<Rightarrow> string" where
  "canonical_url url =
     rev (without_prefix ''/''
       (rev (without_prefix ''www.''
         (without_prefix ''https://'' (without_prefix ''http://'' (ascii_lower url))))))"

text \<open>
  For the examples: the same agency as two providers see it, and a store that already
  holds it, inactive, under a third spelling of its URL.
\<close>

definition two_sightings :: "agency_candidate list" where
  "two_sightings =
     [\<lparr>seen_url = ''https://www.Agence-XYZ.fr/'', seen_name = ''Agence XYZ'', seen_phone = [],
       seen_email = [], seen_from = [''google_maps'']\<rparr>,
      \<lparr>seen_url = ''http://agence-xyz.fr'', seen_name = [], seen_phone = ''+33123456789'',
       seen_email = [], seen_from = [''pages_jaunes'']\<rparr>]"

definition known_store :: "agency list" where
  "known_store =
     [\<lparr>agency_name = ''Agence XYZ'', phone = [], email = ''contact@agence-xyz.fr'',
       website_url = ''https://agence-xyz.fr'', discovered_from = [''annuaire''],
       scraping_status = ''failed'', agency_is_active = False\<rparr>]"

section \<open>Properties of ProxyRotation\<close>

lemma get_proxies_from:
  assumes "i < length ps"
  shows "get_proxies n \<lparr>proxies = ps, current_index = i\<rparr> =
         Inr (map (\<lambda>k. ps ! ((i + k) mod length ps)) [0..<n],
              \<lparr>proxies = ps, current_index = (i + n) mod length ps\<rparr>)"
  using assms
proof (induction n arbitrary: i)
  case 0
  then show ?case by simp
next
  case (Suc n)
  let ?j = "Suc i mod length ps"
  have pos: "0 < length ps" using Suc.prems by (cases ps) simp_all
  have j: "?j < length ps" using pos by simp
  have step: "get_proxy \<lparr>proxies = ps, current_index = i\<rparr> =
              Inr (ps ! i, \<lparr>proxies = ps, current_index = ?j\<rparr>)"
    using Suc.prems by (simp add: get_proxy_def)
  have idx: "(?j + k) mod length ps = (i + Suc k) mod length ps" for k
    by (metis add_Suc add_Suc_right mod_add_left_eq)
  have lst: "map (\<lambda>k. ps ! ((i + k) mod length ps)) [0..<Suc n] =
             ps ! i # map (\<lambda>k. ps ! ((?j + k) mod length ps)) [0..<n]"
    using Suc.prems by (simp add: map_upt_Suc idx del: upt_Suc)
  have fin: "(?j + n) mod length ps = (i + Suc n) mod length ps"
    by (rule idx)
  show ?case
    by (simp add: step Suc.IH [OF j] lst fin del: upt_Suc)
qed

lemma mset_rotate_eq: "mset (rotate i ps) = mset ps"
proof -
  have "mset (rotate i ps) = mset (drop (i mod length ps) ps) + mset (take (i mod length ps) ps)"
    by (simp add: rotate_drop_take)
  also have "\<dots> = mset (take (i mod length ps) ps) + mset (drop (i mod length ps) ps)"
    by (rule add.commute)
  also have "\<dots> = mset (take (i mod length ps) ps @ drop (i mod length ps) ps)"
    by (rule mset_append [symmetric])
  also have "\<dots> = mset ps"
    by (simp only: append_take_drop_id)
  finally show ?thesis .
qed

lemma rotate_as_map:
  assumes "i < length ps"
  shows "map (\<lambda>k. ps ! ((i + k) mod length ps)) [0..<length ps] = rotate i ps"
  by (rule nth_equalityI) (simp_all add: nth_rotate)

text \<open>
  C10. Round robin over a non-empty proxy list. From a fresh object the first \<open>n\<close> calls
  return \<open>proxies[0 mod len], ..., proxies[(n-1) mod len]\<close> (so the \<open>n\<close>-th call returns
  \<open>proxies[(n-1) mod len]\<close>), none raises, and the index afterwards is \<open>n mod len\<close>, inside
  \<open>[0, len)\<close>. From any index \<open>i\<close> in range, \<open>len\<close> calls in a row return the list rotated
  by \<open>i\<close>, which holds every proxy exactly as often as the list does, and they leave the
  object as it was.
\<close>

theorem get_proxy_round_robin:
  "ps \<noteq> [] \<longrightarrow>
     (\<exists>s. get_proxies n (rotation_over ps) =
            Inr (map (\<lambda>k. ps ! (k mod length ps)) [0..<n], s)
          \<and> proxies s = ps \<and> current_index s = n mod length ps
          \<and> current_index s < length (proxies s))
   \<and> (\<forall>i < length ps.
         \<exists>rs. get_proxies (length ps) \<lparr>proxies = ps, current_index = i\<rparr> =
                Inr (rs, \<lparr>proxies = ps, current_index = i\<rparr>)
              \<and> rs = rotate i ps \<and> mset rs = mset ps)"
proof (intro impI conjI allI)
  assume ne: "ps \<noteq> []"
  then have pos: "0 < length ps" by simp
  show "\<exists>s. get_proxies n (rotation_over ps) =
            Inr (map (\<lambda>k. ps ! (k mod length ps)) [0..<n], s)
          \<and> proxies s = ps \<and> current_index s = n mod length ps
          \<and> current_index s < length (proxies s)"
    using get_proxies_from [OF pos, of n] pos by (simp add: rotation_over_def)
  fix i
  assume i: "i < length ps"
  have "get_proxies (length ps) \<lparr>proxies = ps, current_index = i\<rparr> =
        Inr (rotate i ps, \<lparr>proxies = ps, current_index = i\<rparr>)"
    using get_proxies_from [OF i, of "length ps"] i by (simp add: rotate_as_map)
  moreover note mset_rotate_eq [of i ps]
  ultimately show "\<exists>rs. get_proxies (length ps) \<lparr>proxies = ps, current_index = i\<rparr> =
                Inr (rs, \<lparr>proxies = ps, current_index = i\<rparr>)
              \<and> rs = rotate i ps \<and> mset rs = mset ps"
    by simp
qed

theorem get_proxy_round_robin_witness:
  "(\<exists>s. get_proxies 4 init_rotation =
          Inr ([''http://proxy1.com:8080'', ''http://proxy2.com:8080'',
                ''http://proxy3.com:8080'', ''http://proxy1.com:8080''], s)
        \<and> current_index s = 1)
   \<and> get_proxies 3 \<lparr>proxies = proxies init_rotation, current_index = 1\<rparr> =
     Inr ([''http://proxy2.com:8080'', ''http://proxy3.com:8080'', ''http://proxy1.com:8080''],
          \<lparr>proxies = proxies init_rotation, current_index = 1\<rparr>)"
proof -
  let ?P = "proxies init_rotation"
  have P: "?P = [''http://proxy1.com:8080'', ''http://proxy2.com:8080'',
                 ''http://proxy3.com:8080'']"
    by (simp add: init_rotation_def rotation_over_def)
  have ne: "?P \<noteq> []" and len: "length ?P = 3" and init: "rotation_over ?P = init_rotation"
    by (simp_all add: init_rotation_def rotation_over_def)
  have idx: "map (\<lambda>k. ?P ! (k mod 3)) [0..<4] =
      [''http://proxy1.com:8080'', ''http://proxy2.com:8080'', ''http://proxy3.com:8080'',
       ''http://proxy1.com:8080'']"
    unfolding P by (simp add: upt_conv_Cons)
  have rot: "rotate 1 ?P =
      [''http://proxy2.com:8080'', ''http://proxy3.com:8080'', ''http://proxy1.com:8080'']"
    unfolding P by (simp add: rotate1_hd_tl)
  have "(1::nat) < length ?P" by (simp add: len)
  with get_proxy_round_robin [of ?P 4] ne
  have "(\<exists>s. get_proxies 4 init_rotation = Inr (map (\<lambda>k. ?P ! (k mod 3)) [0..<4], s)
            \<and> current_index s = 1)
        \<and> get_proxies 3 \<lparr>proxies = ?P, current_index = 1\<rparr> =
            Inr (rotate 1 ?P, \<lparr>proxies = ?P, current_index = 1\<rparr>)"
    unfolding len init by fastforce
  then show ?thesis
    unfolding idx rot .
qed

section \<open>Properties of retry_with_backoff\<close>

lemma retry_loop_first_success:
  assumes "a \<le> k" "k < n" "func k = Returns v"
    and "\<forall>j. a \<le> j \<and> j < k \<longrightarrow> (\<exists>e. func j = Raises e)"
  shows "retry_loop func n a slept =
         \<lparr>result = Inr (Some v), calls = Suc k, sleeps = slept @ map (\<lambda>j. 2 ^ j) [a..<k]\<rparr>"
  using assms
proof (induction "k - a" arbitrary: a slept)
  case 0
  then have "a = k" by simp
  with 0 show ?case by (subst retry_loop.simps) simp
next
  case (Suc d)
  then have lt: "a < k" by simp
  with Suc.prems obtain e where e: "func a = Raises e" by blast
  have ne: "a \<noteq> n - 1" using lt Suc.prems by simp
  have rec: "retry_loop func n (Suc a) (slept @ [2 ^ a]) =
     \<lparr>result = Inr (Some v), calls = Suc k,
      sleeps = (slept @ [2 ^ a]) @ map (\<lambda>j. 2 ^ j) [Suc a..<k]\<rparr>"
    using Suc.hyps Suc.prems lt by (intro Suc.hyps(1)) auto
  have "retry_loop func n a slept = retry_loop func n (Suc a) (slept @ [2 ^ a])"
    using lt Suc.prems e ne by (subst retry_loop.simps) simp
  with rec show ?case using lt by (simp add: upt_conv_Cons)
qed

lemma retry_loop_all_fail:
  assumes "a < n" "func (n - 1) = Raises e"
    and "\<forall>j. a \<le> j \<and> j < n \<longrightarrow> (\<exists>e. func j = Raises e)"
  shows "retry_loop func n a slept =
         \<lparr>result = Inl e, calls = n, sleeps = slept @ map (\<lambda>j. 2 ^ j) [a..<n - 1]\<rparr>"
  using assms
proof (induction "n - a" arbitrary: a slept)
  case 0
  then show ?case by simp
next
  case (Suc d)
  show ?case
  proof (cases "a = n - 1")
    case True
    with Suc.prems show ?thesis by (subst retry_loop.simps) simp
  next
    case False
    with Suc.prems have lt: "Suc a < n" by simp
    from Suc.prems obtain e' where e': "func a = Raises e'" by (metis le_refl)
    have rec: "retry_loop func n (Suc a) (slept @ [2 ^ a]) =
       \<lparr>result = Inl e, calls = n,
        sleeps = (slept @ [2 ^ a]) @ map (\<lambda>j. 2 ^ j) [Suc a..<n - 1]\<rparr>"
      using Suc.hyps Suc.prems lt by (intro Suc.hyps(1)) auto
    have "retry_loop func n a slept = retry_loop func n (Suc a) (slept @ [2 ^ a])"
      using Suc.prems e' False by (subst retry_loop.simps) simp
    with rec show ?thesis using lt by (simp add: upt_conv_Cons)
  qed
qed

lemma first_success_or_all_fail:
  "(\<exists>k<n::nat. (\<exists>v. func k = Returns v) \<and> (\<forall>j<k. \<exists>e. func j = Raises e))
   \<or> (\<forall>j<n. \<exists>e. func j = Raises e)"
proof (induction n)
  case 0
  then show ?case by simp
next
  case (Suc n)
  from Suc.IH show ?case
  proof
    assume "\<exists>k<n. (\<exists>v. func k = Returns v) \<and> (\<forall>j<k. \<exists>e. func j = Raises e)"
    then show ?thesis using less_Suc_eq by auto
  next
    assume fails: "\<forall>j<n. \<exists>e. func j = Raises e"
    show ?thesis
    proof (cases "func n")
      case (Returns v)
      with fails show ?thesis by blast
    next
      case (Raises e)
      with fails have "\<forall>j<Suc n. \<exists>e. func j = Raises e"
        by (simp add: less_Suc_eq)
      then show ?thesis ..
    qed
  qed
qed


lemma retry_with_backoff_cases:
  assumes "0 < n"
  shows "(\<exists>k<n. \<exists>v. func k = Returns v \<and> (\<forall>j<k. \<exists>e. func j = Raises e)
            \<and> retry_with_backoff func n =
                \<lparr>result = Inr (Some v), calls = Suc k, sleeps = map (\<lambda>j. 2 ^ j) [0..<k]\<rparr>)
       \<or> (\<exists>e. (\<forall>j<n. \<exists>e'. func j = Raises e') \<and> func (n - 1) = Raises e
            \<and> retry_with_backoff func n =
                \<lparr>result = Inl e, calls = n, sleeps = map (\<lambda>j. 2 ^ j) [0..<n - 1]\<rparr>)"
  using first_success_or_all_fail [of n func]
proof
  assume "\<exists>k<n. (\<exists>v. func k = Returns v) \<and> (\<forall>j<k. \<exists>e. func j = Raises e)"
  then obtain k v where k: "k < n" "func k = Returns v" "\<forall>j<k. \<exists>e. func j = Raises e"
    by blast
  then have "retry_loop func n 0 [] =
      \<lparr>result = Inr (Some v), calls = Suc k, sleeps = [] @ map (\<lambda>j. 2 ^ j) [0..<k]\<rparr>"
    by (intro retry_loop_first_success) auto
  with k show ?thesis unfolding retry_with_backoff_def by auto
next
  assume fails: "\<forall>j<n. \<exists>e. func j = Raises e"
  with assms obtain e where e: "func (n - 1) = Raises e"
    by (metis diff_less zero_less_one)
  with assms fails have "retry_loop func n 0 [] =
      \<lparr>result = Inl e, calls = n, sleeps = [] @ map (\<lambda>j. 2 ^ j) [0..<n - 1]\<rparr>"
    by (intro retry_loop_all_fail) auto
  with e fails show ?thesis unfolding retry_with_backoff_def by auto
qed

text \<open>
  C6. The retry helper with its default of three attempts. It invokes the operation at
  least once and at most three times, and sleeps \<open>2 ^ attempt\<close> seconds (1, then 2)
  between consecutive attempts. When the first invocation that succeeds is the \<open>k\<close>-th,
  the helper returns its value after exactly \<open>k + 1\<close> invocations, so the operation is
  not run again. It raises exactly when all three invocations raise, and then the exception
  is the third invocation's. It never falls out of the loop.
\<close>

theorem retry_with_backoff_contract:
  "1 \<le> calls (retry_with_backoff_default func)
   \<and> calls (retry_with_backoff_default func) \<le> 3
   \<and> sleeps (retry_with_backoff_default func) =
       map (\<lambda>k. 2 ^ k) [0..<calls (retry_with_backoff_default func) - 1]
   \<and> (\<forall>k<3. \<forall>v. func k = Returns v \<and> (\<forall>j<k. \<exists>e. func j = Raises e) \<longrightarrow>
         retry_with_backoff_default func =
           \<lparr>result = Inr (Some v), calls = Suc k, sleeps = map (\<lambda>j. 2 ^ j) [0..<k]\<rparr>)
   \<and> (\<forall>v. result (retry_with_backoff_default func) = Inr (Some v) \<longrightarrow>
         (\<exists>k<3. func k = Returns v \<and> (\<forall>j<k. \<exists>e. func j = Raises e)
                \<and> calls (retry_with_backoff_default func) = Suc k))
   \<and> (\<forall>e. result (retry_with_backoff_default func) = Inl e \<longleftrightarrow>
         (\<forall>j<3. \<exists>e'. func j = Raises e') \<and> func 2 = Raises e)
   \<and> result (retry_with_backoff_default func) \<noteq> Inr None"
proof -
  let ?r = "retry_with_backoff_default func"
  have "0 < (3::nat)" by simp
  from retry_with_backoff_cases [OF this, of func]
  show ?thesis
  proof (elim disjE exE conjE)
    fix k v
    assume k: "k < 3" "func k = Returns v" "\<forall>j<k. \<exists>e. func j = Raises e"
      and r: "retry_with_backoff func 3 =
        \<lparr>result = Inr (Some v), calls = Suc k, sleeps = map (\<lambda>j. 2 ^ j) [0..<k]\<rparr>"
    have r': "?r = \<lparr>result = Inr (Some v), calls = Suc k, sleeps = map (\<lambda>j. 2 ^ j) [0..<k]\<rparr>"
      using r by (simp add: retry_with_backoff_default_def)
    have uniq: "k' = k \<and> v' = v"
      if "k' < 3" "func k' = Returns v'" "\<forall>j<k'. \<exists>e. func j = Raises e" for k' v'
    proof -
      have "\<not> k' < k" using k(3) that(2) by auto
      moreover have "\<not> k < k'" using that(3) k(2) by auto
      ultimately have "k' = k" by simp
      with that(2) k(2) show ?thesis by simp
    qed
    have not_all: "\<not> (\<forall>j<3. \<exists>e'. func j = Raises e')"
      using k(1,2) by auto
    have c1: "1 \<le> calls ?r" by (simp add: r')
    have c2: "calls ?r \<le> 3" using k(1) by (simp add: r')
    have c3: "sleeps ?r = map (\<lambda>k. 2 ^ k) [0..<calls ?r - 1]" by (simp add: r')
    have c4: "\<forall>k<3. \<forall>v. func k = Returns v \<and> (\<forall>j<k. \<exists>e. func j = Raises e) \<longrightarrow>
         ?r = \<lparr>result = Inr (Some v), calls = Suc k, sleeps = map (\<lambda>j. 2 ^ j) [0..<k]\<rparr>"
    proof (intro allI impI)
      fix k' v'
      assume "k' < 3" and "func k' = Returns v' \<and> (\<forall>j<k'. \<exists>e. func j = Raises e)"
      then have "k' = k \<and> v' = v" using uniq by blast
      then show "?r = \<lparr>result = Inr (Some v'), calls = Suc k',
                          sleeps = map (\<lambda>j. 2 ^ j) [0..<k']\<rparr>"
        using r' by simp
    qed
    have c5: "\<forall>v. result ?r = Inr (Some v) \<longrightarrow>
         (\<exists>k<3. func k = Returns v \<and> (\<forall>j<k. \<exists>e. func j = Raises e) \<and> calls ?r = Suc k)"
    proof (intro allI impI)
      fix v'
      assume "result ?r = Inr (Some v')"
      then have "v' = v" by (simp add: r')
      with k show "\<exists>k<3. func k = Returns v' \<and> (\<forall>j<k. \<exists>e. func j = Raises e)
                       \<and> calls ?r = Suc k"
        by (intro exI [of _ k]) (simp add: r')
    qed
    have c6: "\<forall>e. result ?r = Inl e \<longleftrightarrow> (\<forall>j<3. \<exists>e'. func j = Raises e') \<and> func 2 = Raises e"
      using not_all by (simp add: r')
    have c7: "result ?r \<noteq> Inr None" by (simp add: r')
    show ?thesis by (intro conjI c1 c2 c3 c4 c5 c6 c7)
  next
    fix e
    assume fails: "\<forall>j<3. \<exists>e'. func j = Raises e'" and e: "func (3 - 1) = Raises e"
      and r: "retry_with_backoff func 3 =
        \<lparr>result = Inl e, calls = 3, sleeps = map (\<lambda>j. 2 ^ j) [0..<3 - 1]\<rparr>"
    have r': "?r = \<lparr>result = Inl e, calls = 3, sleeps = map (\<lambda>j. 2 ^ j) [0..<2]\<rparr>"
      using r by (simp add: retry_with_backoff_default_def)
    have e2: "func 2 = Raises e" using e by simp
    have none: "\<not> (func k = Returns v)" if "k < 3" for k v
      using fails that by auto
    have c1: "1 \<le> calls ?r" by (simp add: r')
    have c2: "calls ?r \<le> 3" by (simp add: r')
    have c3: "sleeps ?r = map (\<lambda>k. 2 ^ k) [0..<calls ?r - 1]" by (simp add: r')
    have c4: "\<forall>k<3. \<forall>v. func k = Returns v \<and> (\<forall>j<k. \<exists>e. func j = Raises e) \<longrightarrow>
         ?r = \<lparr>result = Inr (Some v), calls = Suc k, sleeps = map (\<lambda>j. 2 ^ j) [0..<k]\<rparr>"
      using none by blast
    have c5: "\<forall>v. result ?r = Inr (Some v) \<longrightarrow>
         (\<exists>k<3. func k = Returns v \<and> (\<forall>j<k. \<exists>e. func j = Raises e) \<and> calls ?r = Suc k)"
      by (simp add: r')
    have c6: "\<forall>e. result ?r = Inl e \<longleftrightarrow> (\<forall>j<3. \<exists>e'. func j = Raises e') \<and> func 2 = Raises e"
      using fails e2 by (auto simp add: r')
    have c7: "result ?r \<noteq> Inr None" by (simp add: r')
    show ?thesis by (intro conjI c1 c2 c3 c4 c5 c6 c7)
  qed
qed

theorem retry_with_backoff_contract_witness:
  "retry_with_backoff_default flaky =
     \<lparr>result = Inr (Some ''<html>''), calls = 3, sleeps = [1, 2]\<rparr>"
proof -
  have "flaky 2 = Returns ''<html>'' \<and> (\<forall>j<2. \<exists>e. flaky j = Raises e)"
    by (simp add: flaky_def)
  moreover have "(2::nat) < 3" by simp
  ultimately have "retry_with_backoff_default flaky =
     \<lparr>result = Inr (Some ''<html>''), calls = Suc 2, sleeps = map (\<lambda>j. 2 ^ j) [0..<2]\<rparr>"
    using retry_with_backoff_contract [of flaky] by blast
  then show ?thesis by (simp add: upt_conv_Cons)
qed

section \<open>Properties of FormatDetector.detect\<close>

lemma scan_patterns_first:
  assumes "i < length tbl" "check (indicators (snd (tbl ! i)))"
    and "\<forall>j<i. \<not> check (indicators (snd (tbl ! j)))"
  shows "scan_patterns check tbl = Some (tbl ! i)"
  using assms
proof (induction tbl arbitrary: i)
  case Nil
  then show ?case by simp
next
  case (Cons entry rest)
  obtain plat pats where entry: "entry = (plat, pats)" by (cases entry)
  show ?case
  proof (cases i)
    case 0
    with Cons.prems entry show ?thesis by simp
  next
    case (Suc i')
    with Cons.prems have "\<not> check (indicators pats)"
      using entry by fastforce
    moreover have "scan_patterns check rest = Some (rest ! i')"
      using Cons.prems Suc by (intro Cons.IH) auto
    ultimately show ?thesis using entry Suc by simp
  qed
qed

lemma scan_patterns_none:
  "scan_patterns check tbl = None \<longleftrightarrow>
   (\<forall>j<length tbl. \<not> check (indicators (snd (tbl ! j))))"
proof (induction tbl)
  case Nil
  then show ?case by simp
next
  case (Cons entry rest)
  obtain plat pats where entry: "entry = (plat, pats)" by (cases entry)
  show ?case
    unfolding entry using Cons.IH by (simp add: All_less_Suc2)
qed

text \<open>
  C8. Detection is two-tier and the first match wins, for any indicator test and any
  structure analysis. When the \<open>i\<close>-th entry of the table is the first whose indicators
  match the page, \<open>detect\<close> returns that entry's platform tag with its static selector
  list and analyses nothing. When no entry matches it returns the platform
  \<open>custom\<close> with the analysed structure and the selectors \<open>generate_selectors\<close>
  builds: for each of the keywords annonce, bien, property, listing and offer, in this
  order, the class selector, the class-substring selector, the id selector, the
  id-substring selector and the data-attribute selector, twenty-five in all, whatever the
  structure. It takes the second path only when no entry of the table matches.
\<close>

theorem detect_two_tier:
  "(\<forall>i<length PATTERNS.
      check html url (indicators (snd (PATTERNS ! i)))
      \<and> (\<forall>j<i. \<not> check html url (indicators (snd (PATTERNS ! j))))
      \<longrightarrow> detect check analyze html url =
            \<lparr>platform = fst (PATTERNS ! i),
             found_selectors = selectors (snd (PATTERNS ! i)),
             page_structure = None\<rparr>)
   \<and> ((\<forall>j<length PATTERNS. \<not> check html url (indicators (snd (PATTERNS ! j))))
      \<longrightarrow> detect check analyze html url =
            \<lparr>platform = ''custom'',
             found_selectors = generate_selectors (analyze html),
             page_structure = Some (analyze html)\<rparr>)
   \<and> generate_selectors (analyze html) =
       [''.annonce'', ''[class*='' @ [CHR 0x27] @ ''annonce'' @ [CHR 0x27] @ '']'', ''#annonce'',
        ''[id*='' @ [CHR 0x27] @ ''annonce'' @ [CHR 0x27] @ '']'', ''[data-annonce]'',
        ''.bien'', ''[class*='' @ [CHR 0x27] @ ''bien'' @ [CHR 0x27] @ '']'', ''#bien'',
        ''[id*='' @ [CHR 0x27] @ ''bien'' @ [CHR 0x27] @ '']'', ''[data-bien]'',
        ''.property'', ''[class*='' @ [CHR 0x27] @ ''property'' @ [CHR 0x27] @ '']'', ''#property'',
        ''[id*='' @ [CHR 0x27] @ ''property'' @ [CHR 0x27] @ '']'', ''[data-property]'',
        ''.listing'', ''[class*='' @ [CHR 0x27] @ ''listing'' @ [CHR 0x27] @ '']'', ''#listing'',
        ''[id*='' @ [CHR 0x27] @ ''listing'' @ [CHR 0x27] @ '']'', ''[data-listing]'',
        ''.offer'', ''[class*='' @ [CHR 0x27] @ ''offer'' @ [CHR 0x27] @ '']'', ''#offer'',
        ''[id*='' @ [CHR 0x27] @ ''offer'' @ [CHR 0x27] @ '']'', ''[data-offer]'']
   \<and> (page_structure (detect check analyze html url) \<noteq> None
      \<longrightarrow> (\<forall>j<length PATTERNS. \<not> check html url (indicators (snd (PATTERNS ! j)))))"
proof (intro conjI allI impI)
  fix i
  assume i: "i < length PATTERNS"
    and "check html url (indicators (snd (PATTERNS ! i)))
         \<and> (\<forall>j<i. \<not> check html url (indicators (snd (PATTERNS ! j))))"
  then have "scan_patterns (check html url) PATTERNS = Some (PATTERNS ! i)"
    by (intro scan_patterns_first) auto
  then show "detect check analyze html url =
            \<lparr>platform = fst (PATTERNS ! i),
             found_selectors = selectors (snd (PATTERNS ! i)),
             page_structure = None\<rparr>"
    by (simp add: detect_def split: prod.split)
next
  assume "\<forall>j<length PATTERNS. \<not> check html url (indicators (snd (PATTERNS ! j)))"
  then have "scan_patterns (check html url) PATTERNS = None"
    by (simp only: scan_patterns_none)
  then show "detect check analyze html url =
            \<lparr>platform = ''custom'',
             found_selectors = generate_selectors (analyze html),
             page_structure = Some (analyze html)\<rparr>"
    by (simp add: detect_def)
next
  show "generate_selectors (analyze html) =
       [''.annonce'', ''[class*='' @ [CHR 0x27] @ ''annonce'' @ [CHR 0x27] @ '']'', ''#annonce'',
        ''[id*='' @ [CHR 0x27] @ ''annonce'' @ [CHR 0x27] @ '']'', ''[data-annonce]'',
        ''.bien'', ''[class*='' @ [CHR 0x27] @ ''bien'' @ [CHR 0x27] @ '']'', ''#bien'',
        ''[id*='' @ [CHR 0x27] @ ''bien'' @ [CHR 0x27] @ '']'', ''[data-bien]'',
        ''.property'', ''[class*='' @ [CHR 0x27] @ ''property'' @ [CHR 0x27] @ '']'', ''#property'',
        ''[id*='' @ [CHR 0x27] @ ''property'' @ [CHR 0x27] @ '']'', ''[data-property]'',
        ''.listing'', ''[class*='' @ [CHR 0x27] @ ''listing'' @ [CHR 0x27] @ '']'', ''#listing'',
        ''[id*='' @ [CHR 0x27] @ ''listing'' @ [CHR 0x27] @ '']'', ''[data-listing]'',
        ''.offer'', ''[class*='' @ [CHR 0x27] @ ''offer'' @ [CHR 0x27] @ '']'', ''#offer'',
        ''[id*='' @ [CHR 0x27] @ ''offer'' @ [CHR 0x27] @ '']'', ''[data-offer]'']"
    by (simp add: generate_selectors_def keyword_list_def keyword_selectors_def)
next
  fix j
  assume s: "page_structure (detect check analyze html url) \<noteq> None" and j: "j < length PATTERNS"
  have "scan_patterns (check html url) PATTERNS = None"
  proof (cases "scan_patterns (check html url) PATTERNS")
    case None
    then show ?thesis .
  next
    case (Some found)
    then have "page_structure (detect check analyze html url) = None"
      by (simp add: detect_def split: prod.split)
    with s show ?thesis by simp
  qed
  then have "\<forall>j<length PATTERNS. \<not> check html url (indicators (snd (PATTERNS ! j)))"
    by (simp only: scan_patterns_none)
  with j show "\<not> check html url (indicators (snd (PATTERNS ! j)))"
    by blast
qed

lemma wix_page_checks:
  "any_indicator_in wix_html agency_url (indicators (snd (PATTERNS ! 1)))
   \<and> \<not> any_indicator_in wix_html agency_url (indicators (snd (PATTERNS ! 0)))"
  by code_simp

lemma plain_page_checks:
  "list_all (\<lambda>entry. \<not> any_indicator_in plain_html agency_url (indicators (snd entry))) PATTERNS"
  by code_simp

text \<open>
  The theorem at two pages: one served from wixstatic.com, which the second entry of the
  table matches first, and one that no entry matches, which gets the twenty-five generated
  selectors.
\<close>

theorem detect_two_tier_witness:
  "detect any_indicator_in length wix_html agency_url =
     \<lparr>platform = ''wix'', found_selectors = [''[data-mesh-id]'', ''.wixui''],
      page_structure = None\<rparr>
   \<and> detect any_indicator_in length plain_html agency_url =
     \<lparr>platform = ''custom'',
      found_selectors =
       [''.annonce'', ''[class*='' @ [CHR 0x27] @ ''annonce'' @ [CHR 0x27] @ '']'', ''#annonce'',
        ''[id*='' @ [CHR 0x27] @ ''annonce'' @ [CHR 0x27] @ '']'', ''[data-annonce]'',
        ''.bien'', ''[class*='' @ [CHR 0x27] @ ''bien'' @ [CHR 0x27] @ '']'', ''#bien'',
        ''[id*='' @ [CHR 0x27] @ ''bien'' @ [CHR 0x27] @ '']'', ''[data-bien]'',
        ''.property'', ''[class*='' @ [CHR 0x27] @ ''property'' @ [CHR 0x27] @ '']'', ''#property'',
        ''[id*='' @ [CHR 0x27] @ ''property'' @ [CHR 0x27] @ '']'', ''[data-property]'',
        ''.listing'', ''[class*='' @ [CHR 0x27] @ ''listing'' @ [CHR 0x27] @ '']'', ''#listing'',
        ''[id*='' @ [CHR 0x27] @ ''listing'' @ [CHR 0x27] @ '']'', ''[data-listing]'',
        ''.offer'', ''[class*='' @ [CHR 0x27] @ ''offer'' @ [CHR 0x27] @ '']'', ''#offer'',
        ''[id*='' @ [CHR 0x27] @ ''offer'' @ [CHR 0x27] @ '']'', ''[data-offer]''],
      page_structure = Some (length plain_html)\<rparr>"
proof
  have "(1::nat) < length PATTERNS" by (simp add: PATTERNS_def)
  moreover have "\<forall>j<1. \<not> any_indicator_in wix_html agency_url (indicators (snd (PATTERNS ! j)))"
    using wix_page_checks by simp
  ultimately have "detect any_indicator_in length wix_html agency_url =
      \<lparr>platform = fst (PATTERNS ! 1), found_selectors = selectors (snd (PATTERNS ! 1)),
       page_structure = None\<rparr>"
    using detect_two_tier [of any_indicator_in wix_html agency_url length] wix_page_checks
    by blast
  then show "detect any_indicator_in length wix_html agency_url =
     \<lparr>platform = ''wix'', found_selectors = [''[data-mesh-id]'', ''.wixui''],
      page_structure = None\<rparr>"
    by (simp add: PATTERNS_def)
next
  note at_plain = detect_two_tier [of any_indicator_in plain_html agency_url length]
  have none: "\<forall>j<length PATTERNS.
          \<not> any_indicator_in plain_html agency_url (indicators (snd (PATTERNS ! j)))"
    using plain_page_checks by (simp add: list_all_length)
  have d: "detect any_indicator_in length plain_html agency_url =
     \<lparr>platform = ''custom'', found_selectors = generate_selectors (length plain_html),
      page_structure = Some (length plain_html)\<rparr>"
    using none at_plain by blast
  have g: "generate_selectors (length plain_html) =
       [''.annonce'', ''[class*='' @ [CHR 0x27] @ ''annonce'' @ [CHR 0x27] @ '']'', ''#annonce'',
        ''[id*='' @ [CHR 0x27] @ ''annonce'' @ [CHR 0x27] @ '']'', ''[data-annonce]'',
        ''.bien'', ''[class*='' @ [CHR 0x27] @ ''bien'' @ [CHR 0x27] @ '']'', ''#bien'',
        ''[id*='' @ [CHR 0x27] @ ''bien'' @ [CHR 0x27] @ '']'', ''[data-bien]'',
        ''.property'', ''[class*='' @ [CHR 0x27] @ ''property'' @ [CHR 0x27] @ '']'', ''#property'',
        ''[id*='' @ [CHR 0x27] @ ''property'' @ [CHR 0x27] @ '']'', ''[data-property]'',
        ''.listing'', ''[class*='' @ [CHR 0x27] @ ''listing'' @ [CHR 0x27] @ '']'', ''#listing'',
        ''[id*='' @ [CHR 0x27] @ ''listing'' @ [CHR 0x27] @ '']'', ''[data-listing]'',
        ''.offer'', ''[class*='' @ [CHR 0x27] @ ''offer'' @ [CHR 0x27] @ '']'', ''#offer'',
        ''[id*='' @ [CHR 0x27] @ ''offer'' @ [CHR 0x27] @ '']'', ''[data-offer]'']"
    using at_plain by blast
  show "detect any_indicator_in length plain_html agency_url =
     \<lparr>platform = ''custom'',
      found_selectors =
       [''.annonce'', ''[class*='' @ [CHR 0x27] @ ''annonce'' @ [CHR 0x27] @ '']'', ''#annonce'',
        ''[id*='' @ [CHR 0x27] @ ''annonce'' @ [CHR 0x27] @ '']'', ''[data-annonce]'',
        ''.bien'', ''[class*='' @ [CHR 0x27] @ ''bien'' @ [CHR 0x27] @ '']'', ''#bien'',
        ''[id*='' @ [CHR 0x27] @ ''bien'' @ [CHR 0x27] @ '']'', ''[data-bien]'',
        ''.property'', ''[class*='' @ [CHR 0x27] @ ''property'' @ [CHR 0x27] @ '']'', ''#property'',
        ''[id*='' @ [CHR 0x27] @ ''property'' @ [CHR 0x27] @ '']'', ''[data-property]'',
        ''.listing'', ''[class*='' @ [CHR 0x27] @ ''listing'' @ [CHR 0x27] @ '']'', ''#listing'',
        ''[id*='' @ [CHR 0x27] @ ''listing'' @ [CHR 0x27] @ '']'', ''[data-listing]'',
        ''.offer'', ''[class*='' @ [CHR 0x27] @ ''offer'' @ [CHR 0x27] @ '']'', ''#offer'',
        ''[id*='' @ [CHR 0x27] @ ''offer'' @ [CHR 0x27] @ '']'', ''[data-offer]''],
      page_structure = Some (length plain_html)\<rparr>"
    unfolding d g ..
qed

section \<open>Properties of DynamicParser\<close>

lemma first_match_None:
  "first_match element pats = None \<longleftrightarrow> (\<forall>p \<in> set pats. \<forall>text. element p \<noteq> SelectTag text)"
  by (induction pats) (auto split: selected.splits)

lemma first_match_Some:
  "first_match element pats = Some text \<longleftrightarrow>
   (\<exists>i < length pats. element (pats ! i) = SelectTag text
        \<and> (\<forall>j<i. \<forall>t. element (pats ! j) \<noteq> SelectTag t))"
proof (induction pats)
  case Nil
  then show ?case by simp
next
  case (Cons p rest)
  show ?case
  proof (cases "element p")
    case (SelectTag t)
    have "(\<exists>i < length (p # rest). element ((p # rest) ! i) = SelectTag text
        \<and> (\<forall>j<i. \<forall>t. element ((p # rest) ! j) \<noteq> SelectTag t)) \<longleftrightarrow> t = text"
    proof
      assume "\<exists>i < length (p # rest). element ((p # rest) ! i) = SelectTag text
        \<and> (\<forall>j<i. \<forall>t. element ((p # rest) ! j) \<noteq> SelectTag t)"
      then obtain i where i: "element ((p # rest) ! i) = SelectTag text"
        "\<forall>j<i. \<forall>t. element ((p # rest) ! j) \<noteq> SelectTag t" by blast
      have "i = 0"
      proof (rule ccontr)
        assume "i \<noteq> 0"
        then have "0 < i" by simp
        with i(2) have "element ((p # rest) ! 0) \<noteq> SelectTag t" by blast
        with SelectTag show False by simp
      qed
      with i(1) SelectTag show "t = text" by simp
    next
      assume "t = text"
      with SelectTag show "\<exists>i < length (p # rest). element ((p # rest) ! i) = SelectTag text
        \<and> (\<forall>j<i. \<forall>t. element ((p # rest) ! j) \<noteq> SelectTag t)"
        by (intro exI [of _ 0]) simp
    qed
    with SelectTag show ?thesis by simp
  next
    case SelectNone
    have shift: "(\<exists>i < length (p # rest). element ((p # rest) ! i) = SelectTag text
        \<and> (\<forall>j<i. \<forall>t. element ((p # rest) ! j) \<noteq> SelectTag t)) \<longleftrightarrow>
      (\<exists>i < length rest. element (rest ! i) = SelectTag text
        \<and> (\<forall>j<i. \<forall>t. element (rest ! j) \<noteq> SelectTag t))"
      using SelectNone by (simp add: Ex_less_Suc2 All_less_Suc2)
    show ?thesis using SelectNone Cons.IH shift by simp
  next
    case SelectRaises
    have shift: "(\<exists>i < length (p # rest). element ((p # rest) ! i) = SelectTag text
        \<and> (\<forall>j<i. \<forall>t. element ((p # rest) ! j) \<noteq> SelectTag t)) \<longleftrightarrow>
      (\<exists>i < length rest. element (rest ! i) = SelectTag text
        \<and> (\<forall>j<i. \<forall>t. element (rest ! j) \<noteq> SelectTag t))"
      using SelectRaises by (simp add: Ex_less_Suc2 All_less_Suc2)
    show ?thesis using SelectRaises Cons.IH shift by simp
  qed
qed

lemma extract_fields_keys:
  "(f, t) \<in> set (extract_fields element tbl) \<Longrightarrow> f \<in> fst ` set tbl"
  by (induction tbl) (fastforce split: option.splits)+

lemma map_of_extract_fields:
  assumes "distinct (map fst tbl)"
  shows "map_of (extract_fields element tbl) field =
         (case map_of tbl field of None \<Rightarrow> None | Some pats \<Rightarrow> first_match element pats)"
  using assms
proof (induction tbl)
  case Nil
  then show ?case by simp
next
  case (Cons entry rest)
  obtain f pats where entry: "entry = (f, pats)" by (cases entry)
  from Cons.prems entry have notin: "f \<notin> fst ` set rest" and d: "distinct (map fst rest)"
    by auto
  have IH: "map_of (extract_fields element rest) field =
         (case map_of rest field of None \<Rightarrow> None | Some pats \<Rightarrow> first_match element pats)"
    by (rule Cons.IH [OF d])
  show ?case
  proof (cases "field = f")
    case True
    have "map_of (extract_fields element rest) f = None"
    proof (rule ccontr)
      assume "map_of (extract_fields element rest) f \<noteq> None"
      then obtain t where "map_of (extract_fields element rest) f = Some t" by blast
      then have "(f, t) \<in> set (extract_fields element rest)" by (rule map_of_SomeD)
      with notin show False using extract_fields_keys by blast
    qed
    with True entry show ?thesis by (simp split: option.splits)
  next
    case False
    with entry IH show ?thesis by (simp split: option.splits)
  qed
qed

lemma extract_fields_Nil:
  "extract_fields element tbl = [] \<longleftrightarrow> (\<forall>(f, pats) \<in> set tbl. first_match element pats = None)"
  by (induction tbl) (auto split: option.splits)

lemma FIELD_PATTERNS_distinct: "distinct (map fst FIELD_PATTERNS)"
  by (simp add: FIELD_PATTERNS_def)


lemma extract_listing_None:
  "extract_listing element = None \<longleftrightarrow>
   (\<forall>field \<in> set (map fst FIELD_PATTERNS). resolve element field = None)"
proof -
  have "resolve element f = first_match element pats" if "(f, pats) \<in> set FIELD_PATTERNS" for f pats
    using that FIELD_PATTERNS_distinct by (simp add: resolve_def field_patterns_def)
  then have "(\<forall>(f, pats) \<in> set FIELD_PATTERNS. first_match element pats = None) \<longleftrightarrow>
        (\<forall>field \<in> set (map fst FIELD_PATTERNS). resolve element field = None)"
    by fastforce
  then show ?thesis
    by (simp add: extract_listing_def Let_def extract_fields_Nil)
qed

lemma extract_listing_Some:
  assumes "extract_listing element = Some listing"
  shows "map_of listing field = resolve element field" and "listing \<noteq> []"
proof -
  from assms have l: "listing = extract_fields element FIELD_PATTERNS" and ne: "listing \<noteq> []"
    by (auto simp: extract_listing_def Let_def split: if_splits)
  show "map_of listing field = resolve element field"
    unfolding l resolve_def field_patterns_def
    by (simp add: map_of_extract_fields [OF FIELD_PATTERNS_distinct] split: option.splits)
  show "listing \<noteq> []" by (rule ne)
qed

lemma extract_fields_map_filter:
  "extract_fields element tbl =
     List.map_filter (\<lambda>(field, pats). map_option (Pair field) (first_match element pats)) tbl"
  by (induction tbl) (auto simp: List.map_filter_simps split: option.splits)

lemma map_filter_cong_set:
  "(\<And>x. x \<in> set xs \<Longrightarrow> f x = g x) \<Longrightarrow> List.map_filter f xs = List.map_filter g xs"
  by (induction xs) (auto simp: List.map_filter_simps split: option.splits)

lemma map_filter_map_comp:
  "List.map_filter f (map g xs) = List.map_filter (f \<circ> g) xs"
  by (induction xs) (auto simp: List.map_filter_simps split: option.splits)

lemma resolve_of_entry:
  assumes "(field, pats) \<in> set FIELD_PATTERNS"
  shows "resolve element field = first_match element pats"
proof -
  have "map_of FIELD_PATTERNS field = Some pats"
    using FIELD_PATTERNS_distinct assms by (rule map_of_is_SomeI)
  then show ?thesis by (simp add: resolve_def field_patterns_def)
qed

lemma extract_fields_resolved:
  "extract_fields element FIELD_PATTERNS =
     List.map_filter (\<lambda>field. map_option (Pair field) (resolve element field))
       (map fst FIELD_PATTERNS)"
  unfolding extract_fields_map_filter map_filter_map_comp
  by (rule map_filter_cong_set) (auto simp: resolve_of_entry)

lemma extract_listing_resolved:
  assumes "extract_listing element = Some listing"
  shows "listing =
     List.map_filter (\<lambda>field. map_option (Pair field) (resolve element field))
       (map fst FIELD_PATTERNS)"
  using assms
  by (auto simp: extract_listing_def Let_def extract_fields_resolved split: if_splits)

lemma keep_listings_map_filter:
  "keep_listings elements = List.map_filter extract_listing elements"
  by (induction elements)
     (auto simp: List.map_filter_simps dest: extract_listing_Some(2) split: option.splits)


lemma extract_listing_priced:
  "extract_listing priced = Some [(''price'', ''450 000 '' @ euro)]"
  by (simp add: extract_listing_def FIELD_PATTERNS_def priced_def)

text \<open>
  C9. The target fields are the seven keys of \<open>FIELD_PATTERNS\<close>. When no pattern of a
  field's list finds a tag on the element (each finds nothing or raises), the extracted
  listing has no entry under that field: neither zero nor any other placeholder is stored.
\<close>

theorem unresolved_field_has_no_entry:
  "map fst FIELD_PATTERNS =
     [''title'', ''price'', ''surface'', ''rooms'', ''description'', ''images'', ''contact'']
   \<and> ((field, pats) \<in> set FIELD_PATTERNS
        \<and> (\<forall>p \<in> set pats. \<forall>text. element p \<noteq> SelectTag text)
        \<and> extract_listing element = Some listing
      \<longrightarrow> map_of listing field = None \<and> field \<notin> fst ` set listing)"
proof (intro conjI impI)
  show "map fst FIELD_PATTERNS =
     [''title'', ''price'', ''surface'', ''rooms'', ''description'', ''images'', ''contact'']"
    by (simp add: FIELD_PATTERNS_def)
next
  assume h: "(field, pats) \<in> set FIELD_PATTERNS
        \<and> (\<forall>p \<in> set pats. \<forall>text. element p \<noteq> SelectTag text)
        \<and> extract_listing element = Some listing"
  then have "map_of FIELD_PATTERNS field = Some pats"
    using FIELD_PATTERNS_distinct by (intro map_of_is_SomeI) auto
  then have "field_patterns field = pats"
    by (simp add: field_patterns_def)
  moreover from h have "first_match element pats = None"
    by (simp add: first_match_None)
  ultimately have "resolve element field = None"
    by (simp add: resolve_def)
  with h show none: "map_of listing field = None"
    using extract_listing_Some(1) [of element listing field] by simp
  then show "field \<notin> fst ` set listing"
    by (simp add: map_of_eq_None_iff)
qed

theorem unresolved_field_has_no_entry_witness:
  "extract_listing priced = Some [(''price'', ''450 000 '' @ euro)]
   \<and> map_of [(''price'', ''450 000 '' @ euro)] ''surface'' = None
   \<and> ''surface'' \<notin> fst ` set [(''price'', ''450 000 '' @ euro)]"
proof -
  have "(''surface'', [''.surface'', ''.m2'', ''[data-surface]'']) \<in> set FIELD_PATTERNS"
    by (simp add: FIELD_PATTERNS_def)
  moreover have "\<forall>p \<in> set [''.surface'', ''.m2'', ''[data-surface]''].
                  \<forall>text. priced p \<noteq> SelectTag text"
    by (simp add: priced_def)
  ultimately show ?thesis
    using unresolved_field_has_no_entry
      [of "''surface''" "[''.surface'', ''.m2'', ''[data-surface]'']" priced
          "[(''price'', ''450 000 '' @ euro)]"]
      extract_listing_priced
    by blast
qed

text \<open>
  C4, as the code has it. A candidate is discarded exactly when none of the seven fields
  resolves, and only then. Every candidate that is kept, whichever of its fields resolved,
  is kept as the list of the fields that resolved, in the order of \<open>FIELD_PATTERNS\<close>, each
  with the text it resolved to, so that it has an entry for a field exactly when the field
  resolved. In particular a candidate whose title or price resolves is kept with that title
  and price. \<open>parse\<close> returns the kept listings in page order.
\<close>

theorem discarded_iff_nothing_resolves:
  "(extract_listing element = None \<longleftrightarrow>
      (\<forall>field \<in> set (map fst FIELD_PATTERNS). resolve element field = None))
   \<and> (\<forall>listing. extract_listing element = Some listing \<longrightarrow>
        listing =
          List.map_filter (\<lambda>field. map_option (Pair field) (resolve element field))
            (map fst FIELD_PATTERNS)
        \<and> (\<forall>field. map_of listing field = resolve element field))
   \<and> (resolve element ''title'' \<noteq> None \<or> resolve element ''price'' \<noteq> None \<longrightarrow>
        (\<exists>listing. extract_listing element = Some listing
            \<and> (\<forall>field. map_of listing field = resolve element field)))
   \<and> (soup_select (join_selectors (found_selectors format_info)) = Inr elements \<longrightarrow>
        parse soup_select format_info = Inr (List.map_filter extract_listing elements))"
proof (intro conjI impI allI)
  show "extract_listing element = None \<longleftrightarrow>
      (\<forall>field \<in> set (map fst FIELD_PATTERNS). resolve element field = None)"
    by (rule extract_listing_None)
next
  fix listing
  assume "extract_listing element = Some listing"
  then show "listing =
      List.map_filter (\<lambda>field. map_option (Pair field) (resolve element field))
        (map fst FIELD_PATTERNS)"
    by (rule extract_listing_resolved)
next
  fix listing field
  assume "extract_listing element = Some listing"
  then show "map_of listing field = resolve element field"
    by (rule extract_listing_Some(1))
next
  assume some: "resolve element ''title'' \<noteq> None \<or> resolve element ''price'' \<noteq> None"
  have keys: "''title'' \<in> set (map fst FIELD_PATTERNS)" "''price'' \<in> set (map fst FIELD_PATTERNS)"
    by (simp_all add: FIELD_PATTERNS_def)
  have "extract_listing element \<noteq> None"
  proof
    assume "extract_listing element = None"
    then have all: "\<forall>field \<in> set (map fst FIELD_PATTERNS). resolve element field = None"
      by (simp only: extract_listing_None)
    from bspec [OF all keys(1)] bspec [OF all keys(2)] some show False by simp
  qed
  then obtain listing where "extract_listing element = Some listing" by blast
  then show "\<exists>listing. extract_listing element = Some listing
            \<and> (\<forall>field. map_of listing field = resolve element field)"
    using extract_listing_Some(1) by blast
next
  assume "soup_select (join_selectors (found_selectors format_info)) = Inr elements"
  then show "parse soup_select format_info = Inr (List.map_filter extract_listing elements)"
    by (simp add: parse_def keep_listings_map_filter)
qed

text \<open>
  The theorem at two elements. On \<open>priced\<close> the price resolves: the listing is kept and
  holds the price alone. On \<open>sparse\<close> neither title nor price resolves, and the surface,
  the description and the contact do: the listing is kept and holds those three, in the
  order of \<open>FIELD_PATTERNS\<close>.
\<close>

theorem discarded_iff_nothing_resolves_witness:
  "resolve priced ''price'' = Some (''450 000 '' @ euro)
   \<and> (\<exists>listing. extract_listing priced = Some listing
          \<and> (\<forall>field. map_of listing field = resolve priced field))
   \<and> extract_listing sparse =
       Some [(''surface'', ''62 m2''), (''description'', ''Nous contacter''),
             (''contact'', ''Agence XYZ'')]
   \<and> [(''surface'', ''62 m2''), (''description'', ''Nous contacter''),
             (''contact'', ''Agence XYZ'')] =
       List.map_filter (\<lambda>field. map_option (Pair field) (resolve sparse field))
            (map fst FIELD_PATTERNS)"
proof -
  have p: "resolve priced ''price'' = Some (''450 000 '' @ euro)"
    by (simp add: resolve_def field_patterns_def FIELD_PATTERNS_def priced_def)
  have s: "extract_listing sparse =
       Some [(''surface'', ''62 m2''), (''description'', ''Nous contacter''),
             (''contact'', ''Agence XYZ'')]"
    by (simp add: extract_listing_def FIELD_PATTERNS_def sparse_def)
  note at_priced = discarded_iff_nothing_resolves
      [of priced "\<lambda>selector. Inr [priced]"
          "\<lparr>platform = ''custom'', found_selectors = [''.annonce''], page_structure = None\<rparr>"
          "[priced]"]
  note at_sparse = discarded_iff_nothing_resolves
      [of sparse "\<lambda>selector. Inr [sparse]"
          "\<lparr>platform = ''custom'', found_selectors = [''.annonce''], page_structure = None\<rparr>"
          "[sparse]"]
  have c2: "\<exists>listing. extract_listing priced = Some listing
          \<and> (\<forall>field. map_of listing field = resolve priced field)"
    using p at_priced by blast
  have c4: "[(''surface'', ''62 m2''), (''description'', ''Nous contacter''),
             (''contact'', ''Agence XYZ'')] =
       List.map_filter (\<lambda>field. map_option (Pair field) (resolve sparse field))
            (map fst FIELD_PATTERNS)"
    using s at_sparse by blast
  show ?thesis by (intro conjI p c2 s c4)
qed

text \<open>
  The claim C4 as the specification states it fails: on an element where only the
  paragraph pattern finds a tag, neither title nor price resolves, and the listing is kept.
\<close>

theorem kept_without_title_and_price:
  "resolve paragraph_only ''title'' = None
   \<and> resolve paragraph_only ''price'' = None
   \<and> extract_listing paragraph_only = Some [(''description'', ''Nous contacter'')]
   \<and> parse (\<lambda>selector. Inr [paragraph_only])
        \<lparr>platform = ''custom'', found_selectors = [''.annonce''], page_structure = None\<rparr> =
      Inr [[(''description'', ''Nous contacter'')]]"
  by (simp add: resolve_def field_patterns_def FIELD_PATTERNS_def paragraph_only_def
      parse_def extract_listing_def)

text \<open>
  C5, as the code has it. When the price resolves, the listing is kept and the price it
  stores is the text of the first price pattern, in the order of the list, that finds a
  tag: \<open>get_text(strip=True)\<close> of that tag, as the page has it. Nothing is stripped from
  inside the text and nothing is parsed.
\<close>

theorem price_is_stored_as_text:
  "(resolve element ''price'' = Some text \<longrightarrow>
      (\<exists>listing. extract_listing element = Some listing \<and> map_of listing ''price'' = Some text))
   \<and> (resolve element ''price'' = Some text \<longleftrightarrow>
      (\<exists>i < length (field_patterns ''price'').
          element (field_patterns ''price'' ! i) = SelectTag text
          \<and> (\<forall>j<i. \<forall>t. element (field_patterns ''price'' ! j) \<noteq> SelectTag t)))"
proof (intro conjI impI)
  assume r: "resolve element ''price'' = Some text"
  have "''price'' \<in> set (map fst FIELD_PATTERNS)"
    by (simp add: FIELD_PATTERNS_def)
  have "extract_listing element \<noteq> None"
  proof
    assume "extract_listing element = None"
    then have all: "\<forall>field \<in> set (map fst FIELD_PATTERNS). resolve element field = None"
      by (simp only: extract_listing_None)
    from bspec [OF all \<open>''price'' \<in> set (map fst FIELD_PATTERNS)\<close>] r show False by simp
  qed
  then obtain listing where l: "extract_listing element = Some listing" by blast
  then have "map_of listing ''price'' = Some text"
    using extract_listing_Some(1) [of element listing "''price''"] r by simp
  with l show "\<exists>listing. extract_listing element = Some listing
                 \<and> map_of listing ''price'' = Some text"
    by blast
next
  show "resolve element ''price'' = Some text \<longleftrightarrow>
      (\<exists>i < length (field_patterns ''price'').
          element (field_patterns ''price'' ! i) = SelectTag text
          \<and> (\<forall>j<i. \<forall>t. element (field_patterns ''price'' ! j) \<noteq> SelectTag t))"
    unfolding resolve_def by (rule first_match_Some)
qed

theorem price_is_stored_as_text_witness:
  "resolve priced ''price'' = Some (''450 000 '' @ euro)
   \<and> (\<exists>listing. extract_listing priced = Some listing
          \<and> map_of listing ''price'' = Some (''450 000 '' @ euro))"
proof -
  have "resolve priced ''price'' = Some (''450 000 '' @ euro)"
    by (simp add: resolve_def field_patterns_def FIELD_PATTERNS_def priced_def)
  then show ?thesis
    using price_is_stored_as_text [of priced "''450 000 '' @ euro"] by blast
qed

text \<open>
  The claim C5 as the specification states it fails: the price tag reads
  "450 000" and a euro sign, and that text is what the listing stores, not 450000.
\<close>

theorem price_text_not_normalised:
  "extract_listing priced = Some [(''price'', ''450 000 '' @ euro)]
   \<and> ''450 000 '' @ euro \<noteq> ''450000''"
  by (simp add: extract_listing_def FIELD_PATTERNS_def priced_def euro_def)

section \<open>Properties of DeduplicationEngine\<close>

text \<open>
  The model of SHA-256 on test vectors of the standard (one block, the empty message, two
  blocks), and the hashes of two of the example listings, whose text is ASCII.
\<close>

lemma sha256_test_vector:
  "sha256_hexdigest ''abc'' =
     ''ba7816bf8f01cfea414140de5dae2223b00361a396177a9cb410ff61f20015ad''"
  by code_simp

lemma sha256_test_vector_empty:
  "sha256_hexdigest [] =
     ''e3b0c44298fc1c149afbf4c8996fb92427ae41e4649b934ca495991b7852b855''"
  by code_simp

lemma sha256_test_vector_two_blocks:
  "sha256_hexdigest ''abcdbcdecdefdefgefghfghighijhijkijkljklmklmnlmnomnopnopq'' =
     ''248d6a61d20638b8e5c026930c3e6039a33ce45964ff2167f6ecedd419db06c1''"
  by code_simp

lemma example_listings_ascii:
  "is_ascii (''Appt 3p '' @ ''|'' @ format_value (PyInt 450000) @ ''|'' @ ''12 Rue X, 75015'')"
  by code_simp

lemma generate_hash_listing_plain:
  "generate_hash ascii_lower ascii_strip listing_plain =
     Inr ''1b2f17c6414fe7a96665d6c92209a3de082cb2715aafff3a3c89a5d0de8c18a8''"
  by code_simp

lemma generate_hash_listing_trailing:
  "generate_hash ascii_lower ascii_strip listing_trailing =
     Inr ''ac3d7fc97346de897c725fb03cd0a8f9d0573663d2d0d006c75c5e3916f39be1''"
  by code_simp

lemma generate_hash_reads_three_keys:
  assumes "l1 ''title'' = l2 ''title''" "l1 ''price'' = l2 ''price''"
    and "l1 ''address'' = l2 ''address''"
  shows "generate_hash str_lower str_strip l1 = generate_hash str_lower str_strip l2"
  unfolding generate_hash_def by (simp only: assms)

lemma find_found: "(find P xs \<noteq> None) = (\<exists>x \<in> set xs. P x)"
  by (induction xs) auto

text \<open>
  C1 says that two listings whose title, price and address are identical once lower-cased
  and trimmed get the same hash. \<open>generate_hash\<close> lower-cases and trims, but after it has
  joined the three fields, so the end of the title, both ends of the price and the start of
  the address are not trimmed. Here the code is run on two listings that differ in one
  space at the end of the title: each field of the one equals the field of the other once
  lower-cased and trimmed, and the two hashes differ.
\<close>

theorem trailing_space_changes_hash:
  "map_option (normalized_field ascii_lower ascii_strip) (listing_trailing ''title'') =
     map_option (normalized_field ascii_lower ascii_strip) (listing_plain ''title'')
   \<and> map_option (normalized_field ascii_lower ascii_strip) (listing_trailing ''price'') =
     map_option (normalized_field ascii_lower ascii_strip) (listing_plain ''price'')
   \<and> map_option (normalized_field ascii_lower ascii_strip) (listing_trailing ''address'') =
     map_option (normalized_field ascii_lower ascii_strip) (listing_plain ''address'')
   \<and> generate_hash ascii_lower ascii_strip listing_trailing =
     Inr ''ac3d7fc97346de897c725fb03cd0a8f9d0573663d2d0d006c75c5e3916f39be1''
   \<and> generate_hash ascii_lower ascii_strip listing_plain =
     Inr ''1b2f17c6414fe7a96665d6c92209a3de082cb2715aafff3a3c89a5d0de8c18a8''
   \<and> generate_hash ascii_lower ascii_strip listing_trailing \<noteq>
     generate_hash ascii_lower ascii_strip listing_plain"
proof (intro conjI)
  show "map_option (normalized_field ascii_lower ascii_strip) (listing_trailing ''title'') =
     map_option (normalized_field ascii_lower ascii_strip) (listing_plain ''title'')"
    by code_simp
  show "map_option (normalized_field ascii_lower ascii_strip) (listing_trailing ''price'') =
     map_option (normalized_field ascii_lower ascii_strip) (listing_plain ''price'')"
    by (simp add: listing_trailing_def listing_plain_def)
  show "map_option (normalized_field ascii_lower ascii_strip) (listing_trailing ''address'') =
     map_option (normalized_field ascii_lower ascii_strip) (listing_plain ''address'')"
    by (simp add: listing_trailing_def listing_plain_def)
  show "generate_hash ascii_lower ascii_strip listing_trailing =
     Inr ''ac3d7fc97346de897c725fb03cd0a8f9d0573663d2d0d006c75c5e3916f39be1''"
    by (rule generate_hash_listing_trailing)
  show "generate_hash ascii_lower ascii_strip listing_plain =
     Inr ''1b2f17c6414fe7a96665d6c92209a3de082cb2715aafff3a3c89a5d0de8c18a8''"
    by (rule generate_hash_listing_plain)
  show "generate_hash ascii_lower ascii_strip listing_trailing \<noteq>
     generate_hash ascii_lower ascii_strip listing_plain"
    unfolding generate_hash_listing_trailing generate_hash_listing_plain by simp
qed

text \<open>
  C2, as the code has it, whatever \<open>str.lower\<close> and \<open>str.strip\<close> do. The only thing the
  engine does with a hash is to look it up: \<open>check_duplicate\<close> answers whether some row
  of the table carries the hash of the incoming listing, whatever that row's source URL or
  active flag, and leaves the table as it found it. No row is overwritten, none is created,
  no \<open>duplicate_of\<close> is written.
\<close>

theorem check_duplicate_only_reports:
  "snd (check_duplicate str_lower str_strip db listing) = db
   \<and> (\<forall>h. generate_hash str_lower str_strip listing = Inr h \<longrightarrow>
          fst (check_duplicate str_lower str_strip db listing) =
            Inr (\<exists>row \<in> set db. hash row = h))
   \<and> (\<forall>e. generate_hash str_lower str_strip listing = Inl e \<longrightarrow>
          fst (check_duplicate str_lower str_strip db listing) = Inl e)"
proof (intro conjI allI impI)
  show "snd (check_duplicate str_lower str_strip db listing) = db"
    by (simp add: check_duplicate_def Let_def split: sum.splits)
next
  fix h
  assume "generate_hash str_lower str_strip listing = Inr h"
  then show "fst (check_duplicate str_lower str_strip db listing) =
      Inr (\<exists>row \<in> set db. hash row = h)"
    by (simp add: check_duplicate_def Let_def find_found del: not_None_eq)
next
  fix e
  assume "generate_hash str_lower str_strip listing = Inl e"
  then show "fst (check_duplicate str_lower str_strip db listing) = Inl e"
    by (simp add: check_duplicate_def)
qed

lemma generate_hash_listing_mirror:
  "generate_hash str_lower str_strip listing_mirror = generate_hash str_lower str_strip listing_plain"
  by (rule generate_hash_reads_three_keys) (simp_all add: listing_mirror_def)

theorem check_duplicate_only_reports_witness:
  "check_duplicate ascii_lower ascii_strip stored_db listing_mirror = (Inr True, stored_db)"
proof -
  have h: "generate_hash ascii_lower ascii_strip listing_mirror =
      Inr ''1b2f17c6414fe7a96665d6c92209a3de082cb2715aafff3a3c89a5d0de8c18a8''"
    by (simp only: generate_hash_listing_mirror generate_hash_listing_plain)
  have "\<exists>row \<in> set stored_db.
          hash row = ''1b2f17c6414fe7a96665d6c92209a3de082cb2715aafff3a3c89a5d0de8c18a8''"
    by (simp add: stored_db_def)
  with h show ?thesis
    using check_duplicate_only_reports [of ascii_lower ascii_strip stored_db listing_mirror]
    by (simp add: prod_eq_iff)
qed

text \<open>
  The claim C2 as the specification states it fails: the table holds one active row from
  agency A, the incoming listing has the same hash and comes from another URL, and after
  the engine has seen it the table still holds that one row and no \<open>duplicate_of\<close>.
\<close>

theorem collision_creates_no_record:
  "map is_active stored_db = [True]
   \<and> map source_url stored_db = [''https://agence-a.fr/annonce/1'']
   \<and> listing_mirror ''source_url'' = Some (PyStr ''https://agence-b.fr/bien/9'')
   \<and> map (\<lambda>row. Inr (hash row)) stored_db =
       [generate_hash ascii_lower ascii_strip listing_mirror]
   \<and> fst (check_duplicate ascii_lower ascii_strip stored_db listing_mirror) = Inr True
   \<and> length (snd (check_duplicate ascii_lower ascii_strip stored_db listing_mirror)) = 1
   \<and> map duplicate_of (snd (check_duplicate ascii_lower ascii_strip stored_db listing_mirror)) =
       [None]"
proof -
  have h: "generate_hash ascii_lower ascii_strip listing_mirror =
      Inr ''1b2f17c6414fe7a96665d6c92209a3de082cb2715aafff3a3c89a5d0de8c18a8''"
    by (simp only: generate_hash_listing_mirror generate_hash_listing_plain)
  show ?thesis
    unfolding check_duplicate_def h
    by (simp add: stored_db_def listing_mirror_def)
qed

section \<open>Properties of the change detector\<close>

lemma run_not_across_presence:
  assumes "0 < k"
  shows "sublist (replicate k True) (xs @ False # ys) \<longleftrightarrow>
         sublist (replicate k True) xs \<or> sublist (replicate k True) ys"
proof -
  have no_prefix: "\<not> prefix (replicate k True) (False # ys)"
    using assms by (cases k) simp_all
  have split: "sublist (replicate k True) xs"
    if "replicate k True = xs1 @ xs2" "suffix xs1 xs" "prefix xs2 (False # ys)" for xs1 xs2
  proof (cases xs2)
    case Nil
    with that show ?thesis by auto
  next
    case (Cons b rest)
    with that(3) have "b = False" by simp
    moreover have "b \<in> set (replicate k True)"
      using that(1) Cons by (metis in_set_conv_decomp)
    ultimately show ?thesis by simp
  qed
  show ?thesis
    unfolding sublist_append [of _ xs] sublist_Cons_right [of _ False ys]
    using no_prefix split by blast
qed

lemma observe_agency: "tracked_agency (observe k fresh row) = tracked_agency row"
  and observe_hash: "tracked_hash (observe k fresh row) = tracked_hash row"
  by (simp_all add: observe_def)

lemma follow_inactive: "\<not> tracked_active row \<Longrightarrow> follow k cycles row = row"
  by (induction k cycles row rule: follow.induct) simp_all

lemma follow_hash: "tracked_hash (follow k cycles row) = tracked_hash row"
  by (induction k cycles row rule: follow.induct) (simp_all add: observe_hash)

lemma follow_active_iff:
  assumes "0 < k" "tracked_active row" "missed_cycles row < k"
  shows "tracked_active (follow k cycles row) \<longleftrightarrow>
         \<not> sublist (replicate k True)
              (replicate (missed_cycles row) True @ absences (tracked_hash row) cycles)"
  using assms
proof (induction cycles arbitrary: row)
  case Nil
  have "\<not> sublist (replicate k True) (replicate (missed_cycles row) True)"
    using Nil.prems(3) sublist_length_le by fastforce
  with Nil show ?case by simp
next
  case (Cons cycle cycles)
  show ?case
  proof (cases cycle)
    case Unsuccessful
    with Cons show ?thesis by simp
  next
    case (Scraped fresh)
    let ?h = "tracked_hash row" and ?m = "missed_cycles row"
    show ?thesis
    proof (cases "?h \<in> set fresh")
      case True
      let ?row = "row\<lparr>missed_cycles := 0\<rparr>"
      have "tracked_active (follow k cycles ?row) \<longleftrightarrow>
            \<not> sublist (replicate k True) (replicate 0 True @ absences ?h cycles)"
        using Cons.IH [of ?row] Cons.prems by simp
      moreover have "\<not> sublist (replicate k True) (replicate ?m True)"
        using Cons.prems(3) sublist_length_le by fastforce
      ultimately show ?thesis
        using True Scraped Cons.prems
        by (simp add: observe_def run_not_across_presence)
    next
      case False
      show ?thesis
      proof (cases "k \<le> Suc ?m")
        case True
        with Cons.prems have k: "k = Suc ?m" by simp
        have eq: "replicate ?m True @ True # absences ?h cycles =
              replicate (Suc ?m) True @ absences ?h cycles"
          by (simp add: replicate_append_same)
        have "sublist (replicate k True) (replicate ?m True @ True # absences ?h cycles)"
          unfolding k eq by (rule sublist_append_rightI)
        with True False Scraped Cons.prems show ?thesis
          by (simp add: observe_def follow_inactive)
      next
        case far: False
        let ?row = "row\<lparr>missed_cycles := Suc ?m\<rparr>"
        have ih: "tracked_active (follow k cycles ?row) \<longleftrightarrow>
            \<not> sublist (replicate k True) (replicate (Suc ?m) True @ absences ?h cycles)"
          using Cons.IH [of ?row] Cons.prems far by simp
        have eq: "replicate ?m True @ True # absences ?h cycles =
              replicate (Suc ?m) True @ absences ?h cycles"
          by (simp add: replicate_append_same)
        have step: "follow k (cycle # cycles) row = follow k cycles ?row"
          using far False Scraped Cons.prems by (simp add: observe_def)
        have "absences ?h (cycle # cycles) = True # absences ?h cycles"
          using False Scraped by simp
        then have hist: "replicate ?m True @ absences ?h (cycle # cycles) =
              replicate (Suc ?m) True @ absences ?h cycles"
          by (simp only: eq)
        show ?thesis
          by (simp only: step hist ih)
      qed
    qed
  qed
qed

lemma apply_cycle_nth:
  assumes "i < length store" "tracked_agency (store ! i) = agency"
  shows "length (apply_cycle k agency cycle store) = length store"
    and "apply_cycle k agency cycle store ! i = follow k [cycle] (store ! i)"
  using assms by (cases cycle; simp)+

lemma follow_agency: "tracked_agency (follow k cycles row) = tracked_agency row"
  by (induction k cycles row rule: follow.induct) (simp_all add: observe_agency)

lemma run_cycles_nth:
  assumes "i < length store" "tracked_agency (store ! i) = agency"
  shows "length (run_cycles k agency cycles store) = length store
         \<and> run_cycles k agency cycles store ! i = follow k cycles (store ! i)"
  using assms
proof (induction cycles arbitrary: store)
  case Nil
  then show ?case by (simp add: run_cycles_def)
next
  case (Cons cycle cycles)
  let ?s = "apply_cycle k agency cycle store"
  have len: "length ?s = length store" and nth: "?s ! i = follow k [cycle] (store ! i)"
    using apply_cycle_nth [OF Cons.prems] by simp_all
  have "tracked_agency (?s ! i) = agency"
    using nth Cons.prems(2) by (simp add: follow_agency)
  with Cons.IH [of ?s] len Cons.prems(1)
  have "length (run_cycles k agency cycles ?s) = length ?s
        \<and> run_cycles k agency cycles ?s ! i = follow k cycles (?s ! i)"
    by simp
  moreover have "follow k cycles (follow k [cycle] (store ! i)) = follow k (cycle # cycles) (store ! i)"
    by (cases cycle) simp_all
  ultimately show ?case
    using len nth by (simp add: run_cycles_def)
qed


text \<open>
  C3, on the change detector modelled from the specification. Take a positive threshold
  (3 by default), and a listing of the agency that is active and has just been seen. After
  any sequence of cycles of its agency the listing is inactive exactly when, among the
  successful cycles of the sequence, there were \<open>threshold\<close> in a row from which its
  hash was absent. So it is deactivated only after that many consecutive absences, and
  never after fewer; an unsuccessful cycle neither counts nor breaks the row.
\<close>

theorem inactive_iff_absent_threshold_in_a_row:
  "0 < threshold \<and> i < length store \<and> tracked_agency (store ! i) = agency
   \<and> tracked_active (store ! i) \<and> missed_cycles (store ! i) = 0
   \<longrightarrow> length (run_cycles threshold agency cycles store) = length store
     \<and> tracked_hash (run_cycles threshold agency cycles store ! i) = tracked_hash (store ! i)
     \<and> (tracked_active (run_cycles threshold agency cycles store ! i) \<longleftrightarrow>
          \<not> sublist (replicate threshold True) (absences (tracked_hash (store ! i)) cycles))"
proof (intro impI)
  assume h: "0 < threshold \<and> i < length store \<and> tracked_agency (store ! i) = agency
   \<and> tracked_active (store ! i) \<and> missed_cycles (store ! i) = 0"
  then have run: "length (run_cycles threshold agency cycles store) = length store"
    "run_cycles threshold agency cycles store ! i = follow threshold cycles (store ! i)"
    using run_cycles_nth [of i store agency threshold cycles] by simp_all
  have "tracked_active (follow threshold cycles (store ! i)) \<longleftrightarrow>
        \<not> sublist (replicate threshold True)
            (replicate (missed_cycles (store ! i)) True @ absences (tracked_hash (store ! i)) cycles)"
    using h by (intro follow_active_iff) simp_all
  with h have "tracked_active (follow threshold cycles (store ! i)) \<longleftrightarrow>
        \<not> sublist (replicate threshold True) (absences (tracked_hash (store ! i)) cycles)"
    by simp
  with run show "length (run_cycles threshold agency cycles store) = length store
     \<and> tracked_hash (run_cycles threshold agency cycles store ! i) = tracked_hash (store ! i)
     \<and> (tracked_active (run_cycles threshold agency cycles store ! i) \<longleftrightarrow>
          \<not> sublist (replicate threshold True) (absences (tracked_hash (store ! i)) cycles))"
    by (simp add: follow_hash)
qed

lemma flickering_absences:
  "\<not> sublist (replicate default_threshold True) (absences ''h1'' flickering_history)"
  "sublist (replicate default_threshold True) (absences ''h2'' flickering_history)"
  by code_simp+

theorem inactive_iff_absent_threshold_in_a_row_witness:
  "tracked_active (run_cycles default_threshold 7 flickering_history tracked_store ! 0)
   \<and> \<not> tracked_active (run_cycles default_threshold 7 flickering_history tracked_store ! 1)"
proof -
  have rows: "tracked_store ! 0 =
      \<lparr>tracked_hash = ''h1'', tracked_agency = 7, tracked_active = True, missed_cycles = 0\<rparr>"
    "tracked_store ! 1 =
      \<lparr>tracked_hash = ''h2'', tracked_agency = 7, tracked_active = True, missed_cycles = 0\<rparr>"
    "length tracked_store = 2"
    by (simp_all add: tracked_store_def)
  have pos: "0 < default_threshold" by (simp add: default_threshold_def)
  have "tracked_active (run_cycles default_threshold 7 flickering_history tracked_store ! 0) \<longleftrightarrow>
        \<not> sublist (replicate default_threshold True) (absences ''h1'' flickering_history)"
    using inactive_iff_absent_threshold_in_a_row
      [of default_threshold 0 tracked_store 7 flickering_history] pos rows
    by simp
  moreover
  have "tracked_active (run_cycles default_threshold 7 flickering_history tracked_store ! 1) \<longleftrightarrow>
        \<not> sublist (replicate default_threshold True) (absences ''h2'' flickering_history)"
    using inactive_iff_absent_threshold_in_a_row
      [of default_threshold 1 tracked_store 7 flickering_history] pos rows
    by simp
  ultimately show ?thesis
    using flickering_absences by simp
qed

section \<open>Properties of the discovery merge\<close>

lemma upsert_agency_keys:
  "map (\<lambda>a. canon (website_url a)) (upsert_agency canon c s) =
   (if canon (seen_url c) \<in> (\<lambda>a. canon (website_url a)) ` set s
    then map (\<lambda>a. canon (website_url a)) s
    else map (\<lambda>a. canon (website_url a)) s @ [canon (seen_url c)])"
  by (induction s) (auto simp: enrich_def new_agency_def)

lemma merge_candidate_keys:
  "map (\<lambda>m. canon (seen_url m)) (merge_candidate canon c ms) =
   (if canon (seen_url c) \<in> (\<lambda>m. canon (seen_url m)) ` set ms
    then map (\<lambda>m. canon (seen_url m)) ms
    else map (\<lambda>m. canon (seen_url m)) ms @ [canon (seen_url c)])"
  by (induction ms) (auto simp: combine_def)

lemma upsert_agency_distinct:
  "distinct (map (\<lambda>a. canon (website_url a)) s) \<Longrightarrow>
   distinct (map (\<lambda>a. canon (website_url a)) (upsert_agency canon c s))"
  by (simp add: upsert_agency_keys)

lemma upsert_agency_key_set:
  "(\<lambda>a. canon (website_url a)) ` set (upsert_agency canon c s) =
   insert (canon (seen_url c)) ((\<lambda>a. canon (website_url a)) ` set s)"
  by (induction s) (auto simp: enrich_def new_agency_def)

lemma merge_candidate_key_set:
  "(\<lambda>m. canon (seen_url m)) ` set (merge_candidate canon c ms) =
   insert (canon (seen_url c)) ((\<lambda>m. canon (seen_url m)) ` set ms)"
  by (induction ms) (auto simp: combine_def)

lemma upserts_keys:
  "(\<lambda>a. canon (website_url a)) ` set (foldl (\<lambda>s c. upsert_agency canon c s) s ms) =
   (\<lambda>a. canon (website_url a)) ` set s \<union> (\<lambda>m. canon (seen_url m)) ` set ms"
  by (induction ms arbitrary: s) (simp_all add: upsert_agency_key_set)

lemma upserts_distinct:
  "distinct (map (\<lambda>a. canon (website_url a)) s) \<Longrightarrow>
   distinct (map (\<lambda>a. canon (website_url a)) (foldl (\<lambda>s c. upsert_agency canon c s) s ms))"
  by (induction ms arbitrary: s) (simp_all add: upsert_agency_distinct)

lemma merges_keys:
  "(\<lambda>m. canon (seen_url m)) ` set (foldl (\<lambda>merged c. merge_candidate canon c merged) ms cands) =
   (\<lambda>m. canon (seen_url m)) ` set ms \<union> (\<lambda>c. canon (seen_url c)) ` set cands"
  by (induction cands arbitrary: ms) (simp_all add: merge_candidate_key_set)

lemma discover_keys:
  "(\<lambda>a. canon (website_url a)) ` set (discover canon cands store) =
   (\<lambda>a. canon (website_url a)) ` set store \<union> (\<lambda>c. canon (seen_url c)) ` set cands"
  by (simp add: discover_def merge_candidates_def upserts_keys merges_keys)

lemma discover_distinct:
  "distinct (map (\<lambda>a. canon (website_url a)) store) \<Longrightarrow>
   distinct (map (\<lambda>a. canon (website_url a)) (discover canon cands store))"
  by (simp add: discover_def upserts_distinct)

lemma discoveries_distinct:
  "distinct (map (\<lambda>a. canon (website_url a)) store) \<Longrightarrow>
   distinct (map (\<lambda>a. canon (website_url a))
      (foldl (\<lambda>s cands. discover canon cands s) store runs))"
  by (induction runs arbitrary: store) (simp_all add: discover_distinct)

lemma distinct_keys_at_most_one:
  "distinct (map f rows) \<Longrightarrow> length (filter (\<lambda>a. f a = u) rows) \<le> 1"
proof (induction rows)
  case Nil
  then show ?case by simp
next
  case (Cons x rows)
  then have notin: "f x \<notin> f ` set rows" and d: "distinct (map f rows)" by simp_all
  show ?case
  proof (cases "f x = u")
    case True
    have "\<forall>a \<in> set rows. f a \<noteq> u"
    proof
      fix a
      assume "a \<in> set rows"
      then have "f a \<in> f ` set rows" by (rule imageI)
      with notin True show "f a \<noteq> u" by auto
    qed
    then have "filter (\<lambda>a. f a = u) rows = []"
      by (simp add: filter_empty_conv)
    with True show ?thesis by simp
  next
    case False
    with Cons.IH [OF d] show ?thesis by simp
  qed
qed

lemma upsert_agency_provenance:
  "provenance_at canon k (upsert_agency canon c s) =
   provenance_at canon k s \<union> (if k = canon (seen_url c) then set (seen_from c) else {})"
  unfolding provenance_at_def
  by (induction s) (auto simp: enrich_def new_agency_def)

lemma merge_candidate_provenance:
  "seen_at canon k (merge_candidate canon c ms) =
   seen_at canon k ms \<union> (if k = canon (seen_url c) then set (seen_from c) else {})"
  unfolding seen_at_def
  by (induction ms) (auto simp: combine_def)

lemma seen_at_Cons:
  "seen_at canon k (c # ms) =
   (if canon (seen_url c) = k then set (seen_from c) else {}) \<union> seen_at canon k ms"
  unfolding seen_at_def by auto

lemma upserts_provenance:
  "provenance_at canon k (foldl (\<lambda>s c. upsert_agency canon c s) s ms) =
   provenance_at canon k s \<union> seen_at canon k ms"
  by (induction ms arbitrary: s) (auto simp: upsert_agency_provenance seen_at_Cons seen_at_def)

lemma merges_provenance:
  "seen_at canon k (foldl (\<lambda>merged c. merge_candidate canon c merged) ms cands) =
   seen_at canon k ms \<union> (\<Union>c \<in> {c \<in> set cands. canon (seen_url c) = k}. set (seen_from c))"
  by (induction cands arbitrary: ms) (auto simp: merge_candidate_provenance)

lemma discover_provenance:
  "provenance_at canon k (discover canon cands store) =
   provenance_at canon k store
     \<union> (\<Union>c \<in> {c \<in> set cands. canon (seen_url c) = k}. set (seen_from c))"
proof -
  have "seen_at canon k [] = {}" by (simp add: seen_at_def)
  then show ?thesis
    by (simp add: discover_def merge_candidates_def upserts_provenance merges_provenance)
qed

lemma same_key_same_row:
  assumes "distinct (map f rows)" "a \<in> set rows" "b \<in> set rows"
    and "f a = f b"
  shows "a = b"
  using assms by (meson distinct_map inj_on_def)

text \<open>
  C7, on the Discovery Engine modelled from the specification, for any normalization.
  The normalized URL of a row is the normalization of its \<open>website_url\<close>.

  At all times: the store reached from the empty store by any sequence of discoveries
  holds at most one row per normalized URL.

  From any store with at most one row per normalized URL, whatever the spelling of the
  URLs it holds, every upsert and every discovery give a store with at most one row per
  normalized URL, whose normalized URLs are those of the store and of the candidates.
  After the discovery, two candidates whose URLs have the same normalized URL are one
  Agency record: exactly one row of the store has that normalized URL, and the provenance
  of both candidates is in it.
\<close>

theorem one_agency_per_normalized_url:
  "(\<forall>u. length (filter (\<lambda>a. canon (website_url a) = u)
               (foldl (\<lambda>s found. discover canon found s) [] runs)) \<le> 1)
   \<and> (distinct (map (\<lambda>a. canon (website_url a)) store) \<longrightarrow>
        distinct (map (\<lambda>a. canon (website_url a)) (upsert_agency canon m store))
        \<and> distinct (map (\<lambda>a. canon (website_url a)) (discover canon cands store))
        \<and> (\<forall>u. length (filter (\<lambda>a. canon (website_url a) = u)
                      (discover canon cands store)) \<le> 1)
        \<and> (\<lambda>a. canon (website_url a)) ` set (discover canon cands store) =
            (\<lambda>a. canon (website_url a)) ` set store \<union> (\<lambda>c. canon (seen_url c)) ` set cands
        \<and> (\<forall>c1 \<in> set cands. \<forall>c2 \<in> set cands.
              canon (seen_url c1) = canon (seen_url c2) \<longrightarrow>
              (\<exists>!a. a \<in> set (discover canon cands store)
                     \<and> canon (website_url a) = canon (seen_url c1))
              \<and> (\<forall>a \<in> set (discover canon cands store).
                    canon (website_url a) = canon (seen_url c1) \<longrightarrow>
                    set (seen_from c1) \<union> set (seen_from c2) \<subseteq> set (discovered_from a))))"
proof (intro impI conjI ballI allI)
  fix u
  have "distinct (map (\<lambda>a. canon (website_url a)) ([] :: agency list))" by simp
  then have "distinct (map (\<lambda>a. canon (website_url a))
      (foldl (\<lambda>s found. discover canon found s) [] runs))"
    by (rule discoveries_distinct)
  then show "length (filter (\<lambda>a. canon (website_url a) = u)
               (foldl (\<lambda>s found. discover canon found s) [] runs)) \<le> 1"
    by (rule distinct_keys_at_most_one)
next
  assume d: "distinct (map (\<lambda>a. canon (website_url a)) store)"
  then show "distinct (map (\<lambda>a. canon (website_url a)) (upsert_agency canon m store))"
    by (rule upsert_agency_distinct)
next
  assume d: "distinct (map (\<lambda>a. canon (website_url a)) store)"
  then show "distinct (map (\<lambda>a. canon (website_url a)) (discover canon cands store))"
    by (rule discover_distinct)
next
  fix u
  assume d: "distinct (map (\<lambda>a. canon (website_url a)) store)"
  then have "distinct (map (\<lambda>a. canon (website_url a)) (discover canon cands store))"
    by (rule discover_distinct)
  then show "length (filter (\<lambda>a. canon (website_url a) = u) (discover canon cands store)) \<le> 1"
    by (rule distinct_keys_at_most_one)
next
  show "(\<lambda>a. canon (website_url a)) ` set (discover canon cands store) =
      (\<lambda>a. canon (website_url a)) ` set store \<union> (\<lambda>c. canon (seen_url c)) ` set cands"
    by (rule discover_keys)
next
  fix c1 c2
  assume d: "distinct (map (\<lambda>a. canon (website_url a)) store)"
    and c1: "c1 \<in> set cands" and c2: "c2 \<in> set cands"
    and same: "canon (seen_url c1) = canon (seen_url c2)"
  let ?result = "discover canon cands store"
  let ?k = "canon (seen_url c1)"
  have dr: "distinct (map (\<lambda>a. canon (website_url a)) ?result)"
    using d by (rule discover_distinct)
  have "?k \<in> (\<lambda>c. canon (seen_url c)) ` set cands"
    using c1 by (rule imageI)
  then have "?k \<in> (\<lambda>a. canon (website_url a)) ` set ?result"
    by (simp only: discover_keys Un_iff simp_thms)
  then obtain a where a: "a \<in> set ?result" "canon (website_url a) = ?k" by auto
  show "\<exists>!a. a \<in> set ?result \<and> canon (website_url a) = ?k"
  proof (rule ex1I [of _ a])
    show "a \<in> set ?result \<and> canon (website_url a) = ?k" using a by simp
  next
    fix b
    assume "b \<in> set ?result \<and> canon (website_url b) = ?k"
    with a show "b = a"
      using same_key_same_row [OF dr, of b a] by simp
  qed
next
  fix c1 c2 b
  assume d: "distinct (map (\<lambda>a. canon (website_url a)) store)"
    and c1: "c1 \<in> set cands" and c2: "c2 \<in> set cands"
    and same: "canon (seen_url c1) = canon (seen_url c2)"
  let ?result = "discover canon cands store"
  let ?k = "canon (seen_url c1)"
  assume b: "b \<in> set ?result" and bk: "canon (website_url b) = ?k"
  have dr: "distinct (map (\<lambda>a. canon (website_url a)) ?result)"
    using d by (rule discover_distinct)
  have "set (seen_from c1) \<union> set (seen_from c2) \<subseteq> provenance_at canon ?k ?result"
    using c1 c2 same by (auto simp: discover_provenance)
  also have "provenance_at canon ?k ?result \<subseteq> set (discovered_from b)"
  proof
    fix x
    assume "x \<in> provenance_at canon ?k ?result"
    then obtain b' where b': "b' \<in> set ?result" "canon (website_url b') = ?k"
        "x \<in> set (discovered_from b')"
      by (auto simp: provenance_at_def)
    with b bk have "b' = b"
      using same_key_same_row [OF dr, of b' b] by simp
    with b' show "x \<in> set (discovered_from b)" by simp
  qed
  finally show "set (seen_from c1) \<union> set (seen_from c2) \<subseteq> set (discovered_from b)" .
qed

lemma canonical_url_examples:
  "canonical_url ''https://www.Agence-XYZ.fr/'' = ''agence-xyz.fr''"
  "canonical_url ''http://agence-xyz.fr'' = ''agence-xyz.fr''"
  "canonical_url ''https://agence-xyz.fr'' = ''agence-xyz.fr''"
  by code_simp+

lemma discover_two_sightings:
  "discover canonical_url two_sightings [] =
     [\<lparr>agency_name = ''Agence XYZ'', phone = ''+33123456789'', email = [],
       website_url = ''https://www.Agence-XYZ.fr/'',
       discovered_from = [''google_maps'', ''pages_jaunes''],
       scraping_status = ''pending'', agency_is_active = True\<rparr>]"
  by code_simp

lemma discover_known_store:
  "discover canonical_url two_sightings known_store =
     [\<lparr>agency_name = ''Agence XYZ'', phone = ''+33123456789'',
       email = ''contact@agence-xyz.fr'', website_url = ''https://agence-xyz.fr'',
       discovered_from = [''annuaire'', ''google_maps'', ''pages_jaunes''],
       scraping_status = ''failed'', agency_is_active = True\<rparr>]"
  by code_simp

text \<open>
  The theorem at a store that holds the agency under \<open>https://agence-xyz.fr\<close>, and two
  candidates that spell its URL in two other ways: the three have one normalized URL,
  and the store after the discovery holds the one row, enriched and reactivated.
\<close>

theorem one_agency_per_normalized_url_witness:
  "distinct (map (\<lambda>a. canonical_url (website_url a)) known_store)
   \<and> discover canonical_url two_sightings known_store =
     [\<lparr>agency_name = ''Agence XYZ'', phone = ''+33123456789'',
       email = ''contact@agence-xyz.fr'', website_url = ''https://agence-xyz.fr'',
       discovered_from = [''annuaire'', ''google_maps'', ''pages_jaunes''],
       scraping_status = ''failed'', agency_is_active = True\<rparr>]
   \<and> (\<exists>!a. a \<in> set (discover canonical_url two_sightings known_store)
            \<and> canonical_url (website_url a) = ''agence-xyz.fr'')
   \<and> length (filter (\<lambda>a. canonical_url (website_url a) = ''agence-xyz.fr'')
        (discover canonical_url two_sightings known_store)) \<le> 1
   \<and> length (filter (\<lambda>a. canonical_url (website_url a) = ''agence-xyz.fr'')
        (foldl (\<lambda>s found. discover canonical_url found s) [] [two_sightings, two_sightings]))
       \<le> 1"
proof -
  let ?c1 = "two_sightings ! 0" and ?c2 = "two_sightings ! 1"
  have mem: "?c1 \<in> set two_sightings" "?c2 \<in> set two_sightings"
    by (simp_all add: two_sightings_def)
  have urls: "canonical_url (seen_url ?c1) = ''agence-xyz.fr''"
    "canonical_url (seen_url ?c2) = ''agence-xyz.fr''"
    using canonical_url_examples by (simp_all add: two_sightings_def)
  have start: "distinct (map (\<lambda>a. canonical_url (website_url a)) known_store)"
    by (simp add: known_store_def)
  note at_store = one_agency_per_normalized_url
    [of canonical_url "[two_sightings, two_sightings]" known_store ?c1 two_sightings]
  have runs: "length (filter (\<lambda>a. canonical_url (website_url a) = ''agence-xyz.fr'')
        (foldl (\<lambda>s found. discover canonical_url found s) [] [two_sightings, two_sightings]))
       \<le> 1"
    by (rule spec [where x = "''agence-xyz.fr''", OF conjunct1 [OF at_store]])
  note kept = mp [OF conjunct2 [OF at_store] start]
  note rest = conjunct2 [OF conjunct2 [OF kept]]
  have one: "length (filter (\<lambda>a. canonical_url (website_url a) = ''agence-xyz.fr'')
        (discover canonical_url two_sightings known_store)) \<le> 1"
    by (rule spec [where x = "''agence-xyz.fr''", OF conjunct1 [OF rest]])
  have all: "\<forall>c1 \<in> set two_sightings. \<forall>c2 \<in> set two_sightings.
        canonical_url (seen_url c1) = canonical_url (seen_url c2) \<longrightarrow>
        (\<exists>!a. a \<in> set (discover canonical_url two_sightings known_store)
               \<and> canonical_url (website_url a) = canonical_url (seen_url c1))
        \<and> (\<forall>a \<in> set (discover canonical_url two_sightings known_store).
              canonical_url (website_url a) = canonical_url (seen_url c1) \<longrightarrow>
              set (seen_from c1) \<union> set (seen_from c2) \<subseteq> set (discovered_from a))"
    by (rule conjunct2 [OF conjunct2 [OF rest]])
  from bspec [OF bspec [OF all mem(1)] mem(2)] urls
  have ex: "\<exists>!a. a \<in> set (discover canonical_url two_sightings known_store)
            \<and> canonical_url (website_url a) = ''agence-xyz.fr''"
    by simp
  show ?thesis
    by (intro conjI start discover_known_store ex one runs)
qed

end
